theory Spec2Isabelle
  imports Complex_Main "HOL-Library.Word" "HOL-Library.Log_Nat"
begin

section \<open>Binary32 arithmetic\<close>

text \<open>
  The sketch computes its features in C \<open>float\<close>, the IEEE 754 binary32 format of the
  ESP32: 24 significant bits, round to nearest with ties to even, gradual underflow
  down to \<open>2 powi (-149)\<close>. A finite \<open>float\<close> is modelled by the real number it denotes
  and every arithmetic operation by the exact operation followed by the rounding \<open>fl\<close>.
  Conversion from an integer, addition, subtraction, multiplication, division and
  square root are each rounded once (the square root is only taken of values that are
  not negative). Overflow to infinity is left out: every value the sketch computes from
  16-bit samples stays far below \<open>2 powi 128\<close>. The one NaN the code can produce,
  \<open>0.0f / 0\<close> on an empty block, is the value \<open>None\<close> of the functions that divide by the
  block length.
\<close>

definition rne :: "real \<Rightarrow> int" where
  "rne w = (let f = \<lfloor>w\<rfloor>; d = w - of_int f
            in if d < 1 / 2 then f else if 1 / 2 < d then f + 1
               else if even f then f else f + 1)"

definition expo :: "real \<Rightarrow> int" where
  "expo x = (if 1 \<le> \<bar>x\<bar> then bitlen \<lfloor>\<bar>x\<bar>\<rfloor> - 1 else - bitlen (\<lceil>1 / \<bar>x\<bar>\<rceil> - 1))"

definition fl :: "real \<Rightarrow> real" where
  "fl x = (let e = max (expo x) (- 126)
           in of_int (rne (x * 2 powi (23 - e))) * 2 powi (e - 23))"

definition is_f32 :: "real \<Rightarrow> bool" where
  "is_f32 x \<longleftrightarrow> fl x = x"

definition fadd :: "real \<Rightarrow> real \<Rightarrow> real" where
  "fadd a b = fl (a + b)"

definition fsub :: "real \<Rightarrow> real \<Rightarrow> real" where
  "fsub a b = fl (a - b)"

definition fmul :: "real \<Rightarrow> real \<Rightarrow> real" where
  "fmul a b = fl (a * b)"

definition fdiv :: "real \<Rightarrow> real \<Rightarrow> real" where
  "fdiv a b = fl (a / b)"

definition fsqrt :: "real \<Rightarrow> real" where
  "fsqrt a = fl (sqrt a)"

definition f32_of_int :: "int \<Rightarrow> real" where
  "f32_of_int n = fl (of_int n)"

definition f32_of_nat :: "nat \<Rightarrow> real" where
  "f32_of_nat n = fl (of_nat n)"

text \<open>
  A C \<open>float\<close> that may be NaN is a \<open>real option\<close>; a comparison with NaN is false and
  an operation on NaN gives NaN.
\<close>

type_synonym float = "real option"

definition float_less :: "float \<Rightarrow> float \<Rightarrow> bool" where
  "float_less a b = (case (a, b) of (Some x, Some y) \<Rightarrow> x < y | _ \<Rightarrow> False)"

definition float_mul :: "float \<Rightarrow> float \<Rightarrow> float" where
  "float_mul a b = (case (a, b) of (Some x, Some y) \<Rightarrow> Some (fmul x y) | _ \<Rightarrow> None)"

section \<open>The sketch \<open>waveform_mic-web-stream.ino\<close>\<close>

text \<open>
  A block is the list of its samples, \<open>int16_t\<close> values as 16-bit words read through
  \<open>sint\<close>; the \<open>count\<close> argument of each function is the length of the list.
\<close>

type_synonym int16 = "16 word"

definition BUFFER_SIZE :: nat where
  "BUFFER_SIZE = 512"

definition CALM_THRESHOLD :: int where
  "CALM_THRESHOLD = 500"

definition NOISY_THRESHOLD :: int where
  "NOISY_THRESHOLD = 5000"

definition dataInterval :: nat where
  "dataInterval = 30"

definition waveformLen :: nat where
  "waveformLen = 256"

text \<open>
  The cast \<open>(int16_t) x\<close> of a \<open>float\<close> drops the fraction (towards zero). C leaves it
  undefined when the result does not fit; here it wraps, and \<open>iir_step_in_range\<close> below
  shows that the filter never leaves the range.
\<close>

definition to_int16 :: "real \<Rightarrow> int16" where
  "to_int16 x = word_of_int (if 0 \<le> x then \<lfloor>x\<rfloor> else \<lceil>x\<rceil>)"

text \<open>
  \<open>iirLowPassFilter\<close> (lines 47 to 52). \<open>iir_loop\<close> is the \<open>for\<close> loop from \<open>i = 1\<close>, with
  \<open>prev\<close> the output \<open>out[i-1]\<close>. On an empty block the first line \<open>out[0] = in[0]\<close> has
  no element to copy: \<open>None\<close>.
\<close>

fun iir_loop :: "real \<Rightarrow> int16 \<Rightarrow> int16 list \<Rightarrow> int16 list" where
  "iir_loop alpha prev [] = []"
| "iir_loop alpha prev (x # xs) =
     (let y = to_int16 (fadd (fmul alpha (f32_of_int (sint x)))
                             (fmul (fsub 1 alpha) (f32_of_int (sint prev))))
      in y # iir_loop alpha y xs)"

definition iirLowPassFilter :: "int16 list \<Rightarrow> real \<Rightarrow> int16 list option" where
  "iirLowPassFilter inp alpha =
     (case inp of [] \<Rightarrow> None | x # xs \<Rightarrow> Some (x # iir_loop alpha x xs))"

text \<open>
  \<open>calculateRMS\<close> (lines 54 to 60). The product \<open>samples[i] * samples[i]\<close> is an \<open>int\<close>
  product (at most \<open>2 ^ 30\<close>), converted to \<open>float\<close> and added to the \<open>float\<close> variable
  \<open>sum\<close> (here \<open>sumf\<close>); the quotient by \<open>count\<close>, converted to \<open>float\<close>, and the root
  follow. On an empty block the quotient is \<open>0.0f / 0\<close>, NaN.
\<close>

fun rms_sum :: "real \<Rightarrow> int16 list \<Rightarrow> real" where
  "rms_sum sumf [] = sumf"
| "rms_sum sumf (x # xs) = rms_sum (fadd sumf (f32_of_int (sint x * sint x))) xs"

definition calculateRMS :: "int16 list \<Rightarrow> float" where
  "calculateRMS samples =
     (if samples = [] then None
      else Some (fsqrt (fdiv (rms_sum 0 samples) (f32_of_nat (length samples)))))"

text \<open>\<open>calculatePeak\<close> (lines 62 to 69).\<close>

fun peak_loop :: "real \<Rightarrow> int16 list \<Rightarrow> real" where
  "peak_loop peak [] = peak"
| "peak_loop peak (x # xs) =
     (let abs_sample = f32_of_int \<bar>sint x\<bar>
      in peak_loop (if peak < abs_sample then abs_sample else peak) xs)"

definition calculatePeak :: "int16 list \<Rightarrow> real" where
  "calculatePeak samples = peak_loop 0 samples"

text \<open>
  \<open>calculateFrequencyDistribution\<close> (lines 71 to 90). \<open>freq_loop\<close> is the loop from
  \<open>i = 1\<close> over the pair \<open>(lowFreqEnergy, highFreqEnergy)\<close>, with \<open>prev\<close> the sample
  \<open>samples[i-1]\<close>; the difference and its absolute value are \<open>int\<close> arithmetic. The
  result is the pair of globals after the two divisions by \<open>count\<close>.
\<close>

fun freq_loop :: "real \<times> real \<Rightarrow> int16 \<Rightarrow> int16 list \<Rightarrow> real \<times> real" where
  "freq_loop (lo, hi) prev [] = (lo, hi)"
| "freq_loop (lo, hi) prev (x # xs) =
     (let derivative = f32_of_int \<bar>sint x - sint prev\<bar>
      in freq_loop (if derivative < f32_of_int 1000 then (fadd lo derivative, hi)
                    else (lo, fadd hi derivative)) x xs)"

definition calculateFrequencyDistribution :: "int16 list \<Rightarrow> float \<times> float" where
  "calculateFrequencyDistribution samples =
     (case samples of
        [] \<Rightarrow> (None, None)
      | x # xs \<Rightarrow>
          (let (lo, hi) = freq_loop (0, 0) x xs; n = f32_of_nat (length samples)
           in (Some (fdiv lo n), Some (fdiv hi n))))"

text \<open>\<open>classifyEnvironment\<close> (lines 92 to 100).\<close>

definition classifyEnvironment :: "float \<Rightarrow> float \<Rightarrow> float \<Rightarrow> string" where
  "classifyEnvironment rms lowEnergy highEnergy =
     (if float_less rms (Some (f32_of_int CALM_THRESHOLD))
         \<or> float_less (float_mul highEnergy (Some (f32_of_int 2))) lowEnergy
      then ''Calm''
      else if float_less (Some (f32_of_int NOISY_THRESHOLD)) rms
         \<or> float_less (float_mul lowEnergy (Some (f32_of_int 2))) highEnergy
      then ''Noisy''
      else ''Normal'')"

subsection \<open>State, inputs and effects of \<open>loop\<close>\<close>

record globals =
  clientConnected :: bool
  currentRMS :: float
  currentPeak :: float
  highFreqEnergy :: float
  lowFreqEnergy :: float
  environment :: string

text \<open>The JSON document built at lines 386 to 395, before it is serialised.\<close>

record json_doc =
  json_rms :: float
  json_peak :: float
  json_lowEnergy :: float
  json_highEnergy :: float
  json_environment :: string
  json_waveform :: "int16 list"

text \<open>
  What one call of \<open>loop\<close> does to the outside, in order: text on the serial port, the
  call of \<open>serializeJson\<close>, the two WebSocket sends (with the client number), \<open>delay\<close>.
\<close>

datatype effect =
    Serial_print string
  | Serial_print_num int
  | SerializeJson json_doc
  | Ws_sendTXT nat json_doc
  | Ws_sendBIN nat "8 word list"
  | Delay nat

datatype WStype = WStype_ERROR | WStype_DISCONNECTED | WStype_CONNECTED | WStype_OTHER

text \<open>
  The I2S driver and the WebSocket library are not part of the repository. A cycle's
  input is what they hand to the sketch: the events \<open>ws.loop()\<close> delivers to
  \<open>onWsEvent\<close>, the status \<open>i2s_read\<close> returns and the bytes it has for the caller.
\<close>

record i2s_source =
  i2s_status :: int
  i2s_bytes :: "8 word list"

record cycle_input =
  ws_events :: "(nat \<times> WStype) list"
  i2s :: i2s_source

definition ESP_OK :: int where
  "ESP_OK = 0"

text \<open>
  The FreeRTOS tick count \<open>portMAX_DELAY\<close> is \<open>0xffffffff\<close> and stands for waiting
  without limit.
\<close>

definition portMAX_DELAY :: "32 word" where
  "portMAX_DELAY = 0xFFFFFFFF"

text \<open>
  \<open>i2s_read(port, dest, len, &bytesRead, ticks)\<close>: the driver copies at most \<open>len\<close>
  bytes to the front of \<open>dest\<close>, leaves the rest of \<open>dest\<close> as it was and reports the
  number of bytes copied. The result is what the call has delivered when it returns;
  how long the driver waits under \<open>ticks\<close> is not part of the model.
\<close>

definition i2s_read ::
  "i2s_source \<Rightarrow> 8 word list \<Rightarrow> nat \<Rightarrow> 32 word \<Rightarrow> int \<times> 8 word list \<times> nat" where
  "i2s_read src dest len ticks =
     (let chunk = take len (i2s_bytes src)
      in (i2s_status src, chunk @ drop (length chunk) dest, length chunk))"

text \<open>
  \<open>memset(p, c, n)\<close> on a byte array, \<open>p\<close> at byte offset \<open>off\<close>: \<open>n\<close> bytes are set.
  Writing past the end of the array is undefined: \<open>None\<close>.
\<close>

definition memset :: "8 word list \<Rightarrow> nat \<Rightarrow> 8 word \<Rightarrow> nat \<Rightarrow> 8 word list option" where
  "memset mem off c n =
     (if off + n \<le> length mem then Some (take off mem @ replicate n c @ drop (off + n) mem)
      else None)"

text \<open>An \<open>int16_t\<close> array and its bytes in memory, least significant byte first.\<close>

fun samples_of_bytes :: "8 word list \<Rightarrow> int16 list" where
  "samples_of_bytes (b0 # b1 # bs) = word_cat b1 b0 # samples_of_bytes bs"
| "samples_of_bytes bs = []"

definition bytes_of_samples :: "int16 list \<Rightarrow> 8 word list" where
  "bytes_of_samples xs = concat (map (\<lambda>w. [ucast w, ucast (drop_bit 8 w)]) xs)"

text \<open>\<open>onWsEvent\<close> (lines 275 to 294) and the events of one \<open>ws.loop()\<close>.\<close>

fun onWsEvent :: "globals \<Rightarrow> nat \<times> WStype \<Rightarrow> globals \<times> effect list" where
  "onWsEvent g (num, WStype_DISCONNECTED) =
     (g\<lparr>clientConnected := False\<rparr>, [Serial_print ''WebSocket client disconnected.''])"
| "onWsEvent g (num, WStype_CONNECTED) =
     (g\<lparr>clientConnected := True\<rparr>,
      [Serial_print ''WebSocket client connected: '', Serial_print_num (int num)])"
| "onWsEvent g (num, WStype_ERROR) =
     (g\<lparr>clientConnected := False\<rparr>, [Serial_print ''WebSocket error.''])"
| "onWsEvent g (num, WStype_OTHER) = (g, [])"

fun ws_loop :: "globals \<Rightarrow> (nat \<times> WStype) list \<Rightarrow> globals \<times> effect list" where
  "ws_loop g [] = (g, [])"
| "ws_loop g (ev # evs) =
     (let (g1, es1) = onWsEvent g ev; (g2, es2) = ws_loop g1 evs in (g2, es1 @ es2))"

text \<open>
  Lines 345 to 361 of \<open>loop\<close>: the zero-initialised buffer, the read with
  \<open>portMAX_DELAY\<close>, and on a short read the \<open>memset\<close> from sample \<open>bytesRead / 2\<close> on,
  whose length argument is the number of remaining samples,
  \<open>BUFFER_SIZE - bytesRead / 2\<close>, where \<open>memset\<close> counts bytes (\<open>bytesRead\<close> is at most
  \<open>2 * BUFFER_SIZE\<close>, so the unsigned subtraction does not wrap). The result is the
  status, the number of bytes read and the buffer (\<open>None\<close> if the \<open>memset\<close> left the
  array). \<open>loop\<close> looks at the status first and uses the buffer only when the read
  succeeded.
\<close>

definition read_block :: "i2s_source \<Rightarrow> int \<times> nat \<times> 8 word list option" where
  "read_block src =
     (let buffer = replicate (BUFFER_SIZE * 2) 0;
          (result, buffer, bytesRead) = i2s_read src buffer (BUFFER_SIZE * 2) portMAX_DELAY
      in (result, bytesRead,
          if bytesRead \<noteq> BUFFER_SIZE * 2
          then memset buffer (2 * (bytesRead div 2)) 0 (BUFFER_SIZE - bytesRead div 2)
          else Some buffer))"

text \<open>Lines 377 to 383: the waveform for the web page.\<close>

definition downsample_index :: "int \<Rightarrow> int" where
  "downsample_index i = (i * int BUFFER_SIZE) div int waveformLen"

definition downsample :: "int16 list \<Rightarrow> int16 list" where
  "downsample filteredBuffer =
     map (\<lambda>i. filteredBuffer ! nat (downsample_index (int i))) [0..<waveformLen]"

text \<open>Lines 371 to 375: the four features and the label, stored in the globals.\<close>

definition analyse :: "int16 list \<Rightarrow> globals \<Rightarrow> globals" where
  "analyse filteredBuffer g =
     (let rms = calculateRMS filteredBuffer;
          peak = Some (calculatePeak filteredBuffer);
          (lo, hi) = calculateFrequencyDistribution filteredBuffer
      in g\<lparr>currentRMS := rms, currentPeak := peak, lowFreqEnergy := lo,
            highFreqEnergy := hi, environment := classifyEnvironment rms lo hi\<rparr>)"

text \<open>Lines 385 to 406: the document, and the two sends when a client is connected.\<close>

definition make_json :: "globals \<Rightarrow> int16 list \<Rightarrow> json_doc" where
  "make_json g waveform =
     \<lparr>json_rms = currentRMS g, json_peak = currentPeak g,
      json_lowEnergy = lowFreqEnergy g, json_highEnergy = highFreqEnergy g,
      json_environment = environment g, json_waveform = waveform\<rparr>"

definition publish :: "globals \<Rightarrow> int16 list \<Rightarrow> effect list" where
  "publish g filteredBuffer =
     (let jsonResponse = make_json g (downsample filteredBuffer)
      in if clientConnected g
         then [SerializeJson jsonResponse, Ws_sendTXT 0 jsonResponse,
               Ws_sendBIN 0 (bytes_of_samples filteredBuffer),
               Serial_print ''Data sent to client.'']
         else [Serial_print ''No WebSocket client connected.''])"

text \<open>
  \<open>loop\<close> (lines 341 to 409). \<open>None\<close> stands for undefined behaviour (a \<open>memset\<close> past
  the buffer, the filter on an empty block); \<open>loop_defined\<close> below shows that it never
  arises. \<open>server.handleClient()\<close> serves the web page and touches none of the state.
\<close>

definition loop :: "globals \<Rightarrow> cycle_input \<Rightarrow> (globals \<times> effect list) option" where
  "loop g inp =
     (let (g1, es1) = ws_loop g (ws_events inp);
          (result, bytesRead, buffer) = read_block (i2s inp)
      in if result \<noteq> ESP_OK
         then Some (g1, es1 @ [Serial_print ''I2S read error: '', Serial_print_num result,
                              Delay dataInterval])
         else
           (case buffer of
              None \<Rightarrow> None
            | Some buf \<Rightarrow>
                (case iirLowPassFilter (samples_of_bytes buf) (1 / 4) of
                   None \<Rightarrow> None
                 | Some filteredBuffer \<Rightarrow>
                     (let g2 = analyse filteredBuffer g1
                      in Some (g2,
                           es1
                           @ (if bytesRead \<noteq> BUFFER_SIZE * 2
                              then [Serial_print ''Partial I2S read: '',
                                    Serial_print_num (int bytesRead)]
                              else [])
                           @ [Serial_print ''Bytes read: '', Serial_print_num (int bytesRead)]
                           @ publish g2 filteredBuffer
                           @ [Delay dataInterval])))))"

text \<open>The Arduino runtime calls \<open>loop\<close> again and again: one call per input.\<close>

fun run :: "globals \<Rightarrow> cycle_input list \<Rightarrow> (globals \<times> effect list) option" where
  "run g [] = Some (g, [])"
| "run g (inp # inps) =
     (case loop g inp of
        None \<Rightarrow> None
      | Some (g1, es1) \<Rightarrow>
          (case run g1 inps of None \<Rightarrow> None | Some (g2, es2) \<Rightarrow> Some (g2, es1 @ es2)))"

definition is_publish :: "effect \<Rightarrow> bool" where
  "is_publish e = (case e of SerializeJson d \<Rightarrow> True | Ws_sendTXT n d \<Rightarrow> True
                   | Ws_sendBIN n bs \<Rightarrow> True | _ \<Rightarrow> False)"

subsection \<open>Exact reference values\<close>

text \<open>
  One filter step with \<open>alpha = 0.25\<close> in integer arithmetic: the quotient
  \<open>(a + 3 * b) / 4\<close> of the input \<open>a\<close> and the previous output \<open>b\<close>, with the
  fraction dropped towards zero.
\<close>

definition blend :: "int \<Rightarrow> int \<Rightarrow> int" where
  "blend a b = (if 0 \<le> a + 3 * b then (a + 3 * b) div 4 else - ((- (a + 3 * b)) div 4))"

text \<open>
  The mean of the squared samples of a block, in exact arithmetic, and the relative
  error bound of one rounding, \<open>2 powi (-24)\<close>.
\<close>

definition mean_square :: "int16 list \<Rightarrow> real" where
  "mean_square samples =
     of_int (sum_list (map (\<lambda>x. sint x * sint x) samples)) / of_nat (length samples)"

definition unit_roundoff :: real where
  "unit_roundoff = 1 / 2 ^ 24"

text \<open>
  The absolute first differences \<open>|B[i] - B[i-1]|\<close> for \<open>i\<close> from 1 on, by index, and
  the same list along the block after its first sample \<open>prev\<close>.
\<close>

definition first_differences :: "int16 list \<Rightarrow> int list" where
  "first_differences B = map (\<lambda>i. \<bar>sint (B ! i) - sint (B ! (i - 1))\<bar>) [1..<length B]"

fun differences_after :: "int16 \<Rightarrow> int16 list \<Rightarrow> int list" where
  "differences_after prev [] = []"
| "differences_after prev (x # xs) = \<bar>sint x - sint prev\<bar> # differences_after x xs"

text \<open>The globals as lines 29 to 38 initialise them.\<close>

definition initial_globals :: globals where
  "initial_globals =
     \<lparr>clientConnected = False, currentRMS = Some 0, currentPeak = Some 0,
      highFreqEnergy = Some 0, lowFreqEnergy = Some 0, environment = ''Normal''\<rparr>"

subsection \<open>Example inputs\<close>

text \<open>
  A short read of three bytes (one whole sample and a stray byte), a cycle in which a
  client connects and the read is empty, a quiet cycle, and a failed read (\<open>ESP_FAIL\<close>
  is \<open>-1\<close>).
\<close>

definition short_input :: cycle_input where
  "short_input = \<lparr>ws_events = [], i2s = \<lparr>i2s_status = 0, i2s_bytes = [0x34, 0x12, 0xFF]\<rparr>\<rparr>"

definition connect_input :: cycle_input where
  "connect_input =
     \<lparr>ws_events = [(0, WStype_CONNECTED)], i2s = \<lparr>i2s_status = 0, i2s_bytes = []\<rparr>\<rparr>"

definition quiet_input :: cycle_input where
  "quiet_input = \<lparr>ws_events = [(0, WStype_OTHER)], i2s = \<lparr>i2s_status = 0, i2s_bytes = []\<rparr>\<rparr>"

definition failing_input :: cycle_input where
  "failing_input = \<lparr>ws_events = [], i2s = \<lparr>i2s_status = - 1, i2s_bytes = []\<rparr>\<rparr>"

text \<open>A full read of \<open>BUFFER_SIZE\<close> samples of value 547 (bytes \<open>0x23\<close>, \<open>0x02\<close>).\<close>

definition constant_input :: cycle_input where
  "constant_input =
     \<lparr>ws_events = [],
      i2s = \<lparr>i2s_status = 0, i2s_bytes = concat (replicate 512 [0x23, 0x02])\<rparr>\<rparr>"

text \<open>
  A block of \<open>BUFFER_SIZE\<close> samples that alternate between the largest and the smallest
  value.
\<close>

definition alternating_block :: "int16 list" where
  "alternating_block = concat (replicate 256 [32767, - 32768])"

section \<open>Properties of the rounding\<close>

subsection \<open>Rounding to the nearest integer\<close>

lemma rne_of_int: "rne (of_int n) = n"
  by (simp add: rne_def)

lemma rne_err: "\<bar>of_int (rne w) - w\<bar> \<le> 1 / 2"
proof -
  define f where "f = \<lfloor>w\<rfloor>"
  have "of_int f \<le> w" "w < of_int f + 1" unfolding f_def by linarith+
  then show ?thesis unfolding rne_def Let_def f_def [symmetric]
    by (simp add: abs_if)
qed

lemma rne_ge: "of_int n \<le> w \<Longrightarrow> n \<le> rne w"
proof -
  assume "of_int n \<le> w"
  then have "n \<le> \<lfloor>w\<rfloor>" by (simp add: le_floor_iff)
  then show ?thesis unfolding rne_def Let_def by auto
qed

lemma rne_le: "w \<le> of_int n \<Longrightarrow> rne w \<le> n"
proof -
  assume h: "w \<le> of_int n"
  show ?thesis
  proof (cases "w = of_int n")
    case True
    then show ?thesis by (simp add: rne_of_int)
  next
    case False
    with h have "w < of_int n" by simp
    then have "\<lfloor>w\<rfloor> < n" by (simp add: floor_less_iff)
    then show ?thesis unfolding rne_def Let_def by auto
  qed
qed

lemma rne_eqI: "\<bar>w - of_int m\<bar> < 1 / 2 \<Longrightarrow> rne w = m"
proof -
  assume h: "\<bar>w - of_int m\<bar> < 1 / 2"
  have e: "\<bar>of_int (rne w) - w\<bar> \<le> 1 / 2" by (rule rne_err)
  have "\<bar>of_int (rne w) - (of_int m :: real)\<bar> < 1" using h e by linarith
  then have "\<bar>rne w - m\<bar> < 1" by (metis of_int_1 of_int_abs of_int_diff of_int_less_iff)
  then show ?thesis by linarith
qed

subsection \<open>The binary exponent\<close>

lemma expo_bounds:
  assumes "x \<noteq> 0"
  shows "2 powi (expo x) \<le> \<bar>x\<bar>" and "\<bar>x\<bar> < 2 powi (expo x + 1)"
proof -
  have "2 powi (expo x) \<le> \<bar>x\<bar> \<and> \<bar>x\<bar> < 2 powi (expo x + 1)"
  proof (cases "1 \<le> \<bar>x\<bar>")
    case True
    define n where "n = \<lfloor>\<bar>x\<bar>\<rfloor>"
    have n: "0 < n" using True by (simp add: n_def)
    have b1: "1 \<le> bitlen n" using n by (simp add: bitlen_alt_def)
    have e: "expo x = bitlen n - 1" using True by (simp add: expo_def n_def)
    from bitlen_bounds [OF n]
    have lo: "2 ^ nat (bitlen n - 1) \<le> n" and hi: "n < 2 ^ nat (bitlen n)" by auto
    have "(2::real) powi (bitlen n - 1) = 2 ^ nat (bitlen n - 1)"
      using b1 by (simp add: power_int_def)
    also have "\<dots> = of_int (2 ^ nat (bitlen n - 1))" by simp
    also have "\<dots> \<le> of_int n" using lo by (simp only: of_int_le_iff)
    also have "\<dots> \<le> \<bar>x\<bar>" by (simp add: n_def)
    finally have L: "2 powi (expo x) \<le> \<bar>x\<bar>" by (simp add: e)
    have "n + 1 \<le> 2 ^ nat (bitlen n)" using hi by simp
    then have "(of_int (n + 1) :: real) \<le> of_int (2 ^ nat (bitlen n))"
      by (simp only: of_int_le_iff)
    also have "\<dots> = 2 ^ nat (bitlen n)" by simp
    finally have "(of_int (n + 1) :: real) \<le> 2 ^ nat (bitlen n)" .
    moreover have "\<bar>x\<bar> < of_int (n + 1)" unfolding n_def by linarith
    ultimately have "\<bar>x\<bar> < 2 ^ nat (bitlen n)" by linarith
    moreover have "(2::real) powi (bitlen n) = 2 ^ nat (bitlen n)"
      using b1 by (simp add: power_int_def)
    ultimately have "\<bar>x\<bar> < 2 powi (expo x + 1)" by (simp add: e)
    with L show ?thesis by simp
  next
    case False
    define y where "y = 1 / \<bar>x\<bar>"
    define m where "m = \<lceil>y\<rceil> - 1"
    have x: "0 < \<bar>x\<bar>" "\<bar>x\<bar> < 1" using False assms by auto
    then have y: "1 < y" by (simp add: y_def)
    then have m: "0 < m" unfolding m_def by linarith
    have b1: "1 \<le> bitlen m" using m by (simp add: bitlen_alt_def)
    have e: "expo x = - bitlen m" using False by (simp add: expo_def m_def y_def)
    from bitlen_bounds [OF m]
    have lo: "2 ^ nat (bitlen m - 1) \<le> m" and hi: "m < 2 ^ nat (bitlen m)" by auto
    have "m + 1 \<le> 2 ^ nat (bitlen m)" using hi by simp
    then have "(of_int (m + 1) :: real) \<le> of_int (2 ^ nat (bitlen m))"
      by (simp only: of_int_le_iff)
    also have "\<dots> = 2 ^ nat (bitlen m)" by simp
    finally have "(of_int (m + 1) :: real) \<le> 2 ^ nat (bitlen m)" .
    moreover have "y \<le> of_int (m + 1)" unfolding m_def by simp
    ultimately have yu: "y \<le> 2 ^ nat (bitlen m)" by linarith
    have "(2::real) ^ nat (bitlen m - 1) = of_int (2 ^ nat (bitlen m - 1))" by simp
    also have "\<dots> \<le> of_int m" using lo by (simp only: of_int_le_iff)
    also have "of_int m < y" unfolding m_def by linarith
    finally have yl: "2 ^ nat (bitlen m - 1) < y" .
    have xy: "\<bar>x\<bar> = 1 / y" by (simp add: y_def)
    have "1 / 2 ^ nat (bitlen m) \<le> 1 / y"
      using yu y by (intro divide_left_mono) auto
    moreover have "(2::real) powi (- bitlen m) = 1 / 2 ^ nat (bitlen m)"
      using b1 by (simp add: power_int_minus power_int_nonneg_exp inverse_eq_divide)
    ultimately have L: "2 powi (expo x) \<le> \<bar>x\<bar>" by (simp add: e xy)
    have "1 / y < 1 / 2 ^ nat (bitlen m - 1)"
      using yl y by (intro divide_strict_left_mono) auto
    moreover have "(2::real) powi (- bitlen m + 1) = 1 / 2 ^ nat (bitlen m - 1)"
    proof -
      have "- bitlen m + 1 = - (bitlen m - 1)" by simp
      then have "(2::real) powi (- bitlen m + 1) = inverse (2 powi (bitlen m - 1))"
        by (simp only: power_int_minus)
      also have "\<dots> = 1 / 2 ^ nat (bitlen m - 1)"
        using b1 by (simp add: power_int_nonneg_exp inverse_eq_divide)
      finally show ?thesis .
    qed
    ultimately have "\<bar>x\<bar> < 2 powi (expo x + 1)" by (simp add: e xy)
    with L show ?thesis by simp
  qed
  then show "2 powi (expo x) \<le> \<bar>x\<bar>" and "\<bar>x\<bar> < 2 powi (expo x + 1)" by simp_all
qed

lemma expo_unique:
  assumes "2 powi e \<le> \<bar>x\<bar>" and "\<bar>x\<bar> < 2 powi (e + 1)"
  shows "expo x = e"
proof -
  have "0 < (2::real) powi e" by simp
  with assms(1) have "0 < \<bar>x\<bar>" by linarith
  then have nz: "x \<noteq> 0" by simp
  note b = expo_bounds [OF nz]
  have "(2::real) powi e < 2 powi (expo x + 1)" using assms(1) b(2) by linarith
  then have 1: "e < expo x + 1"
    by (metis power_int_increasing not_le one_le_numeral)
  have "(2::real) powi (expo x) < 2 powi (e + 1)" using assms(2) b(1) by linarith
  then have 2: "expo x < e + 1"
    by (metis power_int_increasing not_le one_le_numeral)
  from 1 2 show ?thesis by simp
qed

subsection \<open>Exact and rounded results\<close>

lemma fl_0: "fl 0 = 0"
  by (simp add: fl_def rne_def)

lemma fl_exact:
  assumes m: "\<bar>m\<bar> < 2 ^ 24" and e: "- 149 \<le> e"
  shows "fl (of_int m * 2 powi e) = of_int m * 2 powi e"
proof (cases "m = 0")
  case True
  then show ?thesis by (simp add: fl_0)
next
  case False
  define x :: real where "x = of_int m * 2 powi e"
  define E where "E = max (expo x) (- 126)"
  have xnz: "x \<noteq> 0" using False by (simp add: x_def)
  have k: "0 \<le> e + 23 - E"
  proof (cases "expo x \<le> - 126")
    case True
    then have "E = - 126" by (simp add: E_def)
    with e show ?thesis by simp
  next
    case False
    then have EE: "E = expo x" by (simp add: E_def)
    have "(2::real) powi E \<le> \<bar>x\<bar>" unfolding EE by (rule expo_bounds(1) [OF xnz])
    also have "\<bar>x\<bar> = of_int \<bar>m\<bar> * 2 powi e" by (simp add: x_def abs_mult)
    also have "\<dots> < 2 ^ 24 * 2 powi e"
    proof -
      have "(of_int \<bar>m\<bar> :: real) < of_int (2 ^ 24)" using m by (simp only: of_int_less_iff)
      then have "(of_int \<bar>m\<bar> :: real) < 2 ^ 24" by simp
      then show ?thesis by (intro mult_strict_right_mono) auto
    qed
    also have "\<dots> = 2 powi (e + 24)" by (simp add: power_int_add)
    finally have "E < e + 24"
      by (metis power_int_increasing not_le one_le_numeral)
    then show ?thesis by simp
  qed
  have "x * 2 powi (23 - E) = of_int m * 2 powi (e + (23 - E))"
    by (simp add: x_def power_int_add)
  also have "e + (23 - E) = int (nat (e + 23 - E))" using k by simp
  also have "of_int m * (2::real) powi (int (nat (e + 23 - E))) = of_int (m * 2 ^ nat (e + 23 - E))"
    by (simp only: power_int_of_nat) simp
  finally have "rne (x * 2 powi (23 - E)) = m * 2 ^ nat (e + 23 - E)"
    by (simp only: rne_of_int)
  then have "fl x = of_int (m * 2 ^ nat (e + 23 - E)) * 2 powi (E - 23)"
    by (simp add: fl_def E_def Let_def)
  also have "\<dots> = of_int m * (2 powi (int (nat (e + 23 - E))) * 2 powi (E - 23))"
    by (simp only: power_int_of_nat) simp
  also have "2 powi (int (nat (e + 23 - E))) * 2 powi (E - 23) = (2::real) powi e"
    using k by (simp flip: power_int_add)
  finally show ?thesis by (simp add: x_def)
qed

lemma fl_int: "\<bar>n\<bar> < 2 ^ 24 \<Longrightarrow> fl (of_int n) = of_int n"
  using fl_exact [of n 0] by simp

lemma fl_eqI:
  assumes "2 powi e \<le> \<bar>x\<bar>" and "\<bar>x\<bar> < 2 powi (e + 1)" and "- 126 \<le> e"
    and "\<bar>x * 2 powi (23 - e) - of_int m\<bar> < 1 / 2"
  shows "fl x = of_int m * 2 powi (e - 23)"
proof -
  have "expo x = e" using assms(1,2) by (rule expo_unique)
  then have "max (expo x) (- 126) = e" using assms(3) by simp
  moreover have "rne (x * 2 powi (23 - e)) = m" using assms(4) by (rule rne_eqI)
  ultimately show ?thesis by (simp add: fl_def Let_def)
qed

lemma fl_rel_err:
  assumes "2 powi (- 126) \<le> \<bar>x\<bar>"
  shows "\<bar>fl x - x\<bar> \<le> \<bar>x\<bar> / 2 ^ 24"
proof -
  have "0 < (2::real) powi (- 126)" by simp
  with assms have "0 < \<bar>x\<bar>" by linarith
  then have xnz: "x \<noteq> 0" by simp
  define E where "E = expo x"
  have "(2::real) powi (- 126) < 2 powi (E + 1)"
    using assms expo_bounds(2) [OF xnz] unfolding E_def by linarith
  then have "- 126 < E + 1" by (metis power_int_increasing not_le one_le_numeral)
  then have ME: "max (expo x) (- 126) = E" by (simp add: E_def)
  define w where "w = x * 2 powi (23 - E)"
  have flx: "fl x = of_int (rne w) * 2 powi (E - 23)"
    by (simp add: fl_def ME Let_def w_def)
  have xw: "x = w * 2 powi (E - 23)"
    by (simp add: w_def mult.assoc flip: power_int_add)
  have "fl x - x = (of_int (rne w) - w) * 2 powi (E - 23)"
    by (subst (2) xw) (simp add: flx algebra_simps)
  then have "\<bar>fl x - x\<bar> = \<bar>of_int (rne w) - w\<bar> * 2 powi (E - 23)"
    by (simp add: abs_mult)
  also have "\<dots> \<le> 1 / 2 * 2 powi (E - 23)"
    by (intro mult_right_mono rne_err) simp
  also have "\<dots> = 2 powi E / 2 ^ 24"
    by (simp add: power_int_diff)
  also have "\<dots> \<le> \<bar>x\<bar> / 2 ^ 24"
    using expo_bounds(1) [OF xnz] by (simp add: E_def divide_right_mono)
  finally show ?thesis .
qed

subsection \<open>Values that need no rounding\<close>

lemma is_f32_D:
  assumes "is_f32 x"
  obtains m e where "\<bar>m\<bar> < 2 ^ 24" and "- 149 \<le> e" and "x = of_int m * 2 powi e"
proof (cases "x = 0")
  case True
  then have "\<bar>0::int\<bar> < 2 ^ 24" "- 149 \<le> (0::int)" "x = of_int 0 * 2 powi 0" by simp_all
  then show ?thesis by (rule that)
next
  case False
  define E where "E = max (expo x) (- 126)"
  define w where "w = x * 2 powi (23 - E)"
  have flx: "x = of_int (rne w) * 2 powi (E - 23)"
    using assms by (simp add: is_f32_def fl_def Let_def E_def w_def)
  have "w = (of_int (rne w) * 2 powi (E - 23)) * 2 powi (23 - E)"
    by (metis flx w_def)
  also have "\<dots> = of_int (rne w) * (2 powi (E - 23) * 2 powi (23 - E))"
    by (simp only: mult.assoc)
  also have "2 powi (E - 23) * 2 powi (23 - E) = (1::real)"
    by (simp flip: power_int_add)
  finally have wi: "w = of_int (rne w)" by simp
  have "\<bar>x\<bar> < 2 powi (expo x + 1)" by (rule expo_bounds(2) [OF False])
  also have "\<dots> \<le> 2 powi (E + 1)" by (intro power_int_increasing) (simp_all add: E_def)
  finally have "\<bar>x\<bar> * 2 powi (23 - E) < 2 powi (E + 1) * 2 powi (23 - E)"
    by (intro mult_strict_right_mono) simp_all
  also have "\<dots> = 2 ^ 24" by (simp flip: power_int_add)
  finally have "\<bar>w\<bar> < 2 ^ 24" by (simp add: w_def abs_mult)
  then have "\<bar>(of_int (rne w) :: real)\<bar> < of_int (2 ^ 24)" using wi by simp
  then have "\<bar>rne w\<bar> < 2 ^ 24" by (simp only: of_int_less_iff flip: of_int_abs)
  moreover have "- 149 \<le> E - 23" by (simp add: E_def)
  ultimately show ?thesis using flx by (rule that)
qed

lemma fl_double:
  assumes "is_f32 x"
  shows "fl (x * 2) = x * 2"
proof -
  from assms obtain m e where m: "\<bar>m\<bar> < 2 ^ 24" and e: "- 149 \<le> e"
    and x: "x = of_int m * 2 powi e" by (rule is_f32_D)
  have "x * 2 = of_int m * 2 powi (e + 1)" by (simp add: x power_int_add)
  moreover have "fl (of_int m * 2 powi (e + 1)) = of_int m * 2 powi (e + 1)"
    using m e by (intro fl_exact) simp_all
  ultimately show ?thesis by simp
qed

lemma f32_of_int_exact: "\<bar>n\<bar> < 2 ^ 24 \<Longrightarrow> f32_of_int n = of_int n"
  by (simp add: f32_of_int_def fl_int)

lemma is_f32_of_int: "\<bar>n\<bar> < 2 ^ 24 \<Longrightarrow> is_f32 (of_int n)"
  by (simp add: is_f32_def fl_int)

lemma f32_of_nat_exact: "n < 2 ^ 24 \<Longrightarrow> f32_of_nat n = of_nat n"
  using fl_int [of "int n"] by (simp add: f32_of_nat_def)

subsection \<open>Bounds on one rounding\<close>

lemma fl_ge_pow2:
  assumes "2 powi k \<le> x" and "- 126 \<le> k"
  shows "2 powi k \<le> fl x"
proof -
  have p: "0 < (2::real) powi k" by simp
  with assms(1) have x: "0 < x" by linarith
  then have xnz: "x \<noteq> 0" by simp
  define E where "E = expo x"
  have "(2::real) powi k < 2 powi (E + 1)"
    using assms(1) expo_bounds(2) [OF xnz] x unfolding E_def by simp
  then have kE: "k \<le> E" by (metis power_int_increasing not_le one_le_numeral add1_zle_eq)
  then have ME: "max (expo x) (- 126) = E" using assms(2) by (simp add: E_def)
  have "(2::real) powi E \<le> x" using expo_bounds(1) [OF xnz] x by (simp add: E_def)
  then have "2 powi E * 2 powi (23 - E) \<le> x * 2 powi (23 - E)"
    by (intro mult_right_mono) simp_all
  then have "(of_int (2 ^ 23) :: real) \<le> x * 2 powi (23 - E)"
    by (simp flip: power_int_add)
  then have "2 ^ 23 \<le> rne (x * 2 powi (23 - E))" by (rule rne_ge)
  then have "(of_int (2 ^ 23) :: real) \<le> of_int (rne (x * 2 powi (23 - E)))"
    by (simp only: of_int_le_iff)
  then have "of_int (2 ^ 23) * 2 powi (E - 23) \<le> fl x"
    unfolding fl_def ME Let_def by (intro mult_right_mono) simp_all
  moreover have "(of_int (2 ^ 23) :: real) * 2 powi (E - 23) = 2 powi E"
    by (simp add: power_int_diff)
  moreover have "(2::real) powi k \<le> 2 powi E" using kE by (intro power_int_increasing) simp_all
  ultimately show ?thesis by linarith
qed

lemma fl_nonneg_bounds:
  assumes "x = 0 \<or> 2 powi (- 126) \<le> x"
  shows "x * (1 - unit_roundoff) \<le> fl x" and "fl x \<le> x * (1 + unit_roundoff)"
proof -
  have "x * (1 - unit_roundoff) \<le> fl x \<and> fl x \<le> x * (1 + unit_roundoff)"
  proof (cases "x = 0")
    case True
    then show ?thesis by (simp add: fl_0)
  next
    case False
    with assms have h: "2 powi (- 126) \<le> x" by simp
    have "0 < (2::real) powi (- 126)" by simp
    with h have x: "0 < x" by linarith
    from h x have "2 powi (- 126) \<le> \<bar>x\<bar>" by simp
    from fl_rel_err [OF this] have "\<bar>fl x - x\<bar> \<le> x / 2 ^ 24" using x by simp
    then have "fl x - x \<le> x / 2 ^ 24" "- (x / 2 ^ 24) \<le> fl x - x" by linarith+
    then show ?thesis by (simp add: unit_roundoff_def algebra_simps)
  qed
  then show "x * (1 - unit_roundoff) \<le> fl x" and "fl x \<le> x * (1 + unit_roundoff)" by simp_all
qed

lemma unit_roundoff_bounds: "0 < 1 - unit_roundoff" "1 - unit_roundoff \<le> 1" "1 \<le> 1 + unit_roundoff"
  by (simp_all add: unit_roundoff_def)

section \<open>The waveform for the web page\<close>

text \<open>
  C10. For every \<open>i\<close> below 256, the index \<open>(i * BUFFER_SIZE) / waveformLen\<close> of the
  downsampling loop is \<open>2 * i\<close> and lies below \<open>BUFFER_SIZE\<close>, so the loop reads inside
  the filtered block, and \<open>waveform[i]\<close> is the filtered sample at index \<open>2 * i\<close>. The
  product \<open>i * BUFFER_SIZE\<close> fits the 32-bit \<open>int\<close>.
\<close>

theorem downsample_reads_even_index:
  assumes "i < waveformLen"
  shows "int i * int BUFFER_SIZE < 2 ^ 31
       \<and> downsample_index (int i) = 2 * int i
       \<and> nat (downsample_index (int i)) < BUFFER_SIZE
       \<and> length (downsample filteredBuffer) = waveformLen
       \<and> downsample filteredBuffer ! i = filteredBuffer ! (2 * i)"
proof -
  have idx: "downsample_index (int i) = 2 * int i"
    by (simp add: downsample_index_def BUFFER_SIZE_def waveformLen_def)
  have "nat (2 * int i) = 2 * i" by simp
  with idx assms show ?thesis
    by (simp add: downsample_def BUFFER_SIZE_def waveformLen_def)
qed

theorem downsample_reads_even_index_witness:
  "(255::nat) < waveformLen \<and> downsample_index 255 = 510 \<and> nat (downsample_index 255) < BUFFER_SIZE
   \<and> downsample (replicate 512 (7 :: int16)) ! 255 = replicate 512 7 ! 510"
  using downsample_reads_even_index [of 255 "replicate 512 (7 :: int16)"]
  by (simp add: waveformLen_def BUFFER_SIZE_def)

section \<open>The classifier\<close>

text \<open>
  C1. For every feature set of finite \<open>float\<close> values the classifier returns Calm if
  \<open>rms < 500\<close> or \<open>lowEnergy > 2 * highEnergy\<close>, else Noisy if \<open>rms > 5000\<close> or
  \<open>highEnergy > 2 * lowEnergy\<close>, else Normal. The Calm test comes first: an input that
  meets the Calm condition is Calm whether or not it meets the Noisy condition too
  (\<open>rms = 400\<close>, \<open>highEnergy = 3 * lowEnergy\<close> in the witness). The doubling in
  \<open>float\<close> is exact, so the comparisons are those of the real numbers.
\<close>

theorem classifyEnvironment_calm_first:
  assumes "is_f32 lowEnergy" and "is_f32 highEnergy"
  shows "classifyEnvironment (Some rms) (Some lowEnergy) (Some highEnergy) =
           (if rms < 500 \<or> 2 * highEnergy < lowEnergy then ''Calm''
            else if 5000 < rms \<or> 2 * lowEnergy < highEnergy then ''Noisy''
            else ''Normal'')
       \<and> (rms < 500 \<or> 2 * highEnergy < lowEnergy \<longrightarrow>
            classifyEnvironment (Some rms) (Some lowEnergy) (Some highEnergy) = ''Calm'')"
proof -
  have c: "f32_of_int CALM_THRESHOLD = 500" "f32_of_int NOISY_THRESHOLD = 5000"
    "f32_of_int 2 = 2"
    by (simp_all add: CALM_THRESHOLD_def NOISY_THRESHOLD_def f32_of_int_exact)
  have d: "fmul highEnergy 2 = 2 * highEnergy" "fmul lowEnergy 2 = 2 * lowEnergy"
    using assms by (simp_all add: fmul_def fl_double mult.commute)
  show ?thesis
    by (simp add: classifyEnvironment_def float_less_def float_mul_def c d)
qed

theorem classifyEnvironment_calm_first_witness:
  "is_f32 10 \<and> is_f32 30 \<and> (400::real) < 500 \<and> (2::real) * 10 < 30
   \<and> classifyEnvironment (Some 400) (Some 10) (Some 30) = ''Calm''"
proof -
  have a: "is_f32 10" using is_f32_of_int [of 10] by simp
  have b: "is_f32 30" using is_f32_of_int [of 30] by simp
  show ?thesis using classifyEnvironment_calm_first [OF a b, of 400] a b by simp
qed

section \<open>The filter\<close>

text \<open>
  With \<open>alpha = 0.25\<close> every intermediate value of a filter step is a multiple of
  \<open>1 / 4\<close> below \<open>2 ^ 17\<close> in size, so no \<open>float\<close> operation of the step rounds (and
  a fused multiply-add would give the same value).
\<close>

lemma sint16_range: "- 32768 \<le> sint (x :: int16)" "sint (x :: int16) < 32768"
  using sint_ge [of x] sint_lt [of x] by simp_all

lemma sint_word_of_int16:
  "- 32768 \<le> t \<Longrightarrow> t < 32768 \<Longrightarrow> sint (word_of_int t :: int16) = t"
  by (simp add: sint_sbintrunc' signed_take_bit_int_eq_self)

lemma quarter_blend_exact:
  fixes a b :: int
  assumes "\<bar>a\<bar> \<le> 32768" and "\<bar>b\<bar> \<le> 32768"
  shows "fadd (fmul (1 / 4) (f32_of_int a)) (fmul (fsub 1 (1 / 4)) (f32_of_int b))
         = of_int (a + 3 * b) / 4"
proof -
  have q: "(2::real) powi (- 2) = 1 / 4" by (simp add: power_int_minus_divide)
  have fa: "f32_of_int a = of_int a" and fb: "f32_of_int b = of_int b"
    using assms by (simp_all add: f32_of_int_exact)
  have "fl (of_int a * 2 powi (- 2)) = of_int a * 2 powi (- 2)"
    using assms by (intro fl_exact) simp_all
  then have m1: "fmul (1 / 4) (of_int a) = of_int a / 4" by (simp add: fmul_def q)
  have "fl (of_int 3 * 2 powi (- 2)) = of_int 3 * 2 powi (- 2)"
    by (intro fl_exact) simp_all
  then have s: "fsub 1 (1 / 4) = 3 / 4" by (simp add: fsub_def q)
  have "fl (of_int (3 * b) * 2 powi (- 2)) = of_int (3 * b) * 2 powi (- 2)"
    using assms by (intro fl_exact) simp_all
  then have m2: "fmul (3 / 4) (of_int b) = of_int (3 * b) / 4" by (simp add: fmul_def q)
  have "fl (of_int (a + 3 * b) * 2 powi (- 2)) = of_int (a + 3 * b) * 2 powi (- 2)"
    using assms by (intro fl_exact) simp_all
  then have "fadd (of_int a / 4) (of_int (3 * b) / 4) = of_int (a + 3 * b) / 4"
    by (simp add: fadd_def q add_divide_distrib)
  then show ?thesis by (simp only: fa fb m1 s m2)
qed

lemma trunc_quarter:
  "(if (0::real) \<le> of_int k / 4 then \<lfloor>(of_int k :: real) / 4\<rfloor> else \<lceil>(of_int k :: real) / 4\<rceil>)
   = (if 0 \<le> k then k div 4 else - ((- k) div 4))"
proof -
  have "\<lfloor>(of_int k :: real) / of_int 4\<rfloor> = k div 4" by (rule floor_divide_of_int_eq)
  moreover have "\<lceil>(of_int k :: real) / of_int 4\<rceil> = - (- k div 4)" by (rule ceiling_divide_eq_div)
  ultimately show ?thesis by simp
qed

lemma blend_between: "min a b \<le> blend a b \<and> blend a b \<le> max a b"
  unfolding blend_def by (cases "0 \<le> a + 3 * b") (simp_all, linarith+)

lemma to_int16_blend:
  fixes a b :: int
  assumes "\<bar>a\<bar> \<le> 32768" and "\<bar>b\<bar> \<le> 32768"
  shows "to_int16 (fadd (fmul (1 / 4) (f32_of_int a)) (fmul (fsub 1 (1 / 4)) (f32_of_int b)))
         = word_of_int (blend a b)"
  unfolding to_int16_def blend_def quarter_blend_exact [OF assms]
  by (simp only: trunc_quarter)

lemma iir_step:
  fixes x prev :: int16
  shows "sint (to_int16 (fadd (fmul (1 / 4) (f32_of_int (sint x)))
                            (fmul (fsub 1 (1 / 4)) (f32_of_int (sint prev)))))
         = blend (sint x) (sint prev)"
proof -
  note r = sint16_range [of x] sint16_range [of prev]
  have "to_int16 (fadd (fmul (1 / 4) (f32_of_int (sint x)))
                (fmul (fsub 1 (1 / 4)) (f32_of_int (sint prev))))
        = word_of_int (blend (sint x) (sint prev))"
    using r by (intro to_int16_blend) simp_all
  moreover have "- 32768 \<le> blend (sint x) (sint prev)" "blend (sint x) (sint prev) < 32768"
    using blend_between [of "sint x" "sint prev"] r by linarith+
  ultimately show ?thesis by (simp add: sint_word_of_int16)
qed

lemma iir_loop_length: "length (iir_loop alpha prev xs) = length xs"
  by (induction xs arbitrary: prev) (simp_all add: Let_def)

lemma iir_loop_nth:
  assumes "i < length xs"
  shows "sint (iir_loop (1 / 4) prev xs ! i)
         = blend (sint (xs ! i)) (sint ((prev # iir_loop (1 / 4) prev xs) ! i))"
  using assms
proof (induction xs arbitrary: prev i)
  case Nil
  then show ?case by simp
next
  case (Cons x xs)
  show ?case
  proof (cases i)
    case 0
    then show ?thesis by (simp add: Let_def iir_step)
  next
    case (Suc j)
    with Cons.prems have "j < length xs" by simp
    from Cons.IH [OF this] Suc show ?thesis by (simp add: Let_def)
  qed
qed

text \<open>
  C2. For every block \<open>B\<close> of length at least 1, the filter with \<open>alpha = 0.25\<close> returns
  a block \<open>F\<close> of the same length with \<open>F[0] = B[0]\<close>, and for every \<open>i \<ge> 1\<close> the stored
  value \<open>F[i]\<close> lies between \<open>B[i]\<close> and \<open>F[i-1]\<close> inclusive: the truncation of the cast
  to \<open>int16_t\<close> does not leave that interval.
\<close>

theorem iirLowPassFilter_blend:
  assumes "B \<noteq> []"
  shows "\<exists>F. iirLowPassFilter B (1 / 4) = Some F \<and> length F = length B \<and> F ! 0 = B ! 0
           \<and> (\<forall>i. 1 \<le> i \<and> i < length B \<longrightarrow>
                 min (sint (B ! i)) (sint (F ! (i - 1))) \<le> sint (F ! i)
                 \<and> sint (F ! i) \<le> max (sint (B ! i)) (sint (F ! (i - 1))))"
proof -
  from assms obtain x xs where B: "B = x # xs" by (cases B) auto
  define F where "F = x # iir_loop (1 / 4) x xs"
  have 1: "iirLowPassFilter B (1 / 4) = Some F" by (simp add: iirLowPassFilter_def B F_def)
  have 2: "length F = length B" by (simp add: F_def B iir_loop_length)
  have 3: "F ! 0 = B ! 0" by (simp add: F_def B)
  have 4: "min (sint (B ! i)) (sint (F ! (i - 1))) \<le> sint (F ! i)
         \<and> sint (F ! i) \<le> max (sint (B ! i)) (sint (F ! (i - 1)))"
    if "1 \<le> i" "i < length B" for i
  proof -
    from that obtain j where i: "i = Suc j" and j: "j < length xs"
      by (cases i) (auto simp: B)
    have "sint (F ! i) = blend (sint (B ! i)) (sint (F ! (i - 1)))"
      using iir_loop_nth [OF j, of x] by (simp add: F_def B i)
    then show ?thesis using blend_between [of "sint (B ! i)" "sint (F ! (i - 1))"] by simp
  qed
  from 1 2 3 4 show ?thesis by blast
qed

lemma iir_step_in_range:
  fixes x prev :: int16
  defines "v \<equiv> fadd (fmul (1 / 4) (f32_of_int (sint x)))
                     (fmul (fsub 1 (1 / 4)) (f32_of_int (sint prev)))"
  shows "- 32768 \<le> v \<and> v \<le> 32767"
proof -
  note r = sint16_range [of x] sint16_range [of prev]
  have v: "v = of_int (sint x + 3 * sint prev) / 4"
    unfolding v_def using r by (intro quarter_blend_exact) simp_all
  have "- 131072 \<le> sint x + 3 * sint prev" "sint x + 3 * sint prev \<le> 131068"
    using r by linarith+
  then have "(of_int (- 131072) :: real) \<le> of_int (sint x + 3 * sint prev)"
    "(of_int (sint x + 3 * sint prev) :: real) \<le> of_int 131068"
    by (simp_all only: of_int_le_iff)
  then show ?thesis unfolding v by simp
qed

theorem iirLowPassFilter_blend_witness:
  "[100, 0, - 3 :: int16] \<noteq> []
   \<and> (\<exists>F. iirLowPassFilter [100, 0, - 3] (1 / 4) = Some F \<and> length F = 3 \<and> F ! 0 = 100
          \<and> min (sint (0 :: int16)) (sint (F ! 0)) \<le> sint (F ! 1)
          \<and> sint (F ! 1) \<le> max (sint (0 :: int16)) (sint (F ! 0)))"
proof -
  have h: "[100, 0, - 3 :: int16] \<noteq> []" by simp
  from iirLowPassFilter_blend [OF h] obtain F
    where F: "iirLowPassFilter [100, 0, - 3] (1 / 4) = Some F" "length F = 3" "F ! 0 = 100"
      and b: "\<forall>i. 1 \<le> i \<and> i < 3 \<longrightarrow>
                 min (sint ([100, 0, - 3 :: int16] ! i)) (sint (F ! (i - 1))) \<le> sint (F ! i)
                 \<and> sint (F ! i) \<le> max (sint ([100, 0, - 3 :: int16] ! i)) (sint (F ! (i - 1)))"
    by auto
  from b have "min (sint ([100, 0, - 3 :: int16] ! 1)) (sint (F ! (1 - 1))) \<le> sint (F ! 1)
     \<and> sint (F ! 1) \<le> max (sint ([100, 0, - 3 :: int16] ! 1)) (sint (F ! (1 - 1)))"
    by (rule allE [where x = 1]) simp
  with F h show ?thesis by auto
qed

lemma iirLowPassFilter_example:
  "iirLowPassFilter [100, 0, - 3 :: int16] (1 / 4) = Some [100, 75, 55]"
  by (simp add: iirLowPassFilter_def Let_def to_int16_blend blend_def)

section \<open>One cycle of \<open>loop\<close>\<close>

subsection \<open>The buffer after the read\<close>

lemma samples_of_bytes_length: "length (samples_of_bytes bs) = length bs div 2"
  by (induction bs rule: samples_of_bytes.induct) simp_all

lemma samples_of_bytes_zeros: "samples_of_bytes (replicate (2 * m) 0) = replicate m 0"
  by (induction m) simp_all

lemma samples_of_bytes_append:
  "even (length bs) \<Longrightarrow> samples_of_bytes (bs @ cs) = samples_of_bytes bs @ samples_of_bytes cs"
  by (induction bs rule: samples_of_bytes.induct) simp_all

lemma samples_of_bytes_nth:
  "2 * i + 1 < length bs \<Longrightarrow> samples_of_bytes bs ! i = word_cat (bs ! (2 * i + 1)) (bs ! (2 * i))"
proof (induction bs arbitrary: i rule: samples_of_bytes.induct)
  case (1 b0 b1 bs)
  then show ?case by (cases i) simp_all
qed simp_all

text \<open>The buffer after lines 345 to 361.\<close>

lemma read_block_buffer:
  fixes src :: i2s_source
  defines "chunk \<equiv> take (BUFFER_SIZE * 2) (i2s_bytes src)"
  defines "k \<equiv> length chunk div 2"
  shows "read_block src =
           (i2s_status src, length chunk,
            Some (if length chunk = BUFFER_SIZE * 2 then chunk
                  else take (2 * k) chunk @ replicate (BUFFER_SIZE * 2 - 2 * k) 0))"
proof -
  have B: "BUFFER_SIZE * 2 = 1024" "BUFFER_SIZE = 512" by (simp_all add: BUFFER_SIZE_def)
  have c: "take 1024 (i2s_bytes src) = chunk" by (simp add: chunk_def B)
  have len: "length chunk \<le> 1024" by (simp add: chunk_def B)
  define buf where "buf = chunk @ replicate (1024 - length chunk) (0 :: 8 word)"
  have lbuf: "length buf = 1024" using len by (simp add: buf_def)
  have r: "i2s_read src (replicate 1024 0) 1024 portMAX_DELAY
           = (i2s_status src, buf, length chunk)"
    using len by (simp add: i2s_read_def Let_def c buf_def)
  show ?thesis
  proof (cases "length chunk = 1024")
    case True
    then have "buf = chunk" by (simp add: buf_def)
    with True show ?thesis by (simp add: read_block_def B r)
  next
    case False
    with len have lt: "length chunk < 1024" by simp
    then have k: "k \<le> 511" "2 * k \<le> length chunk" "length chunk \<le> 2 * k + 1"
      unfolding k_def by simp_all
    have "take (2 * k) buf @ replicate (512 - k) 0 @ drop (2 * k + (512 - k)) buf
          = take (2 * k) chunk @ replicate (1024 - 2 * k) 0"
    proof (rule nth_equalityI)
      show "length (take (2 * k) buf @ replicate (512 - k) 0 @ drop (2 * k + (512 - k)) buf)
            = length (take (2 * k) chunk @ replicate (1024 - 2 * k) 0)"
        using k lbuf by simp
    next
      fix i
      assume "i < length (take (2 * k) buf @ replicate (512 - k) 0
                          @ drop (2 * k + (512 - k)) buf)"
      then have i: "i < 1024" using k lbuf by simp
      show "(take (2 * k) buf @ replicate (512 - k) 0 @ drop (2 * k + (512 - k)) buf) ! i
            = (take (2 * k) chunk @ replicate (1024 - 2 * k) 0) ! i"
        using i k lbuf by (auto simp: nth_append buf_def)
    qed
    moreover have "2 * k + (512 - k) \<le> length buf" using k lbuf by simp
    ultimately have m: "memset buf (2 * k) 0 (512 - k)
                        = Some (take (2 * k) chunk @ replicate (1024 - 2 * k) 0)"
      by (simp add: memset_def)
    from False show ?thesis by (simp add: read_block_def B r m k_def [symmetric])
  qed
qed

lemma read_block_samples:
  fixes src :: i2s_source
  defines "chunk \<equiv> take (BUFFER_SIZE * 2) (i2s_bytes src)"
  obtains buf where "read_block src = (i2s_status src, length chunk, Some buf)"
    and "length (samples_of_bytes buf) = BUFFER_SIZE"
    and "\<And>i. i < length chunk div 2 \<Longrightarrow>
           samples_of_bytes buf ! i = word_cat (chunk ! (2 * i + 1)) (chunk ! (2 * i))"
    and "\<And>i. length chunk div 2 \<le> i \<Longrightarrow> i < BUFFER_SIZE \<Longrightarrow> length chunk < BUFFER_SIZE * 2
           \<Longrightarrow> samples_of_bytes buf ! i = 0"
proof -
  have B: "BUFFER_SIZE * 2 = 1024" "BUFFER_SIZE = 512" by (simp_all add: BUFFER_SIZE_def)
  have len: "length chunk \<le> 1024" by (simp add: chunk_def B)
  define k where "k = length chunk div 2"
  define buf where "buf = (if length chunk = BUFFER_SIZE * 2 then chunk
                  else take (2 * k) chunk @ replicate (BUFFER_SIZE * 2 - 2 * k) 0)"
  have 1: "read_block src = (i2s_status src, length chunk, Some buf)"
    unfolding buf_def k_def chunk_def by (rule read_block_buffer)
  have k: "2 * k \<le> length chunk" "k \<le> 512" using len by (simp_all add: k_def)
  have lb: "length buf = 1024" using k len by (simp add: buf_def B)
  have 2: "length (samples_of_bytes buf) = BUFFER_SIZE"
    by (simp add: samples_of_bytes_length lb B)
  have 3: "samples_of_bytes buf ! i = word_cat (chunk ! (2 * i + 1)) (chunk ! (2 * i))"
    if "i < length chunk div 2" for i
  proof -
    from that have i: "2 * i + 1 < 2 * k" "2 * i < 2 * k" by (simp_all add: k_def)
    with k lb have "2 * i + 1 < length buf" by simp
    then have "samples_of_bytes buf ! i = word_cat (buf ! (2 * i + 1)) (buf ! (2 * i))"
      by (rule samples_of_bytes_nth)
    moreover have "buf ! (2 * i + 1) = chunk ! (2 * i + 1)" "buf ! (2 * i) = chunk ! (2 * i)"
      using i k by (simp_all add: buf_def nth_append)
    ultimately show ?thesis by simp
  qed
  have 4: "samples_of_bytes buf ! i = 0"
    if "length chunk div 2 \<le> i" "i < BUFFER_SIZE" "length chunk < BUFFER_SIZE * 2" for i
  proof -
    from that have ne: "length chunk \<noteq> BUFFER_SIZE * 2" by simp
    have ev: "even (length (take (2 * k) chunk))" using k by simp
    have "1024 - 2 * k = 2 * (512 - k)" using k by simp
    then have "samples_of_bytes buf
               = samples_of_bytes (take (2 * k) chunk) @ replicate (512 - k) 0"
      using ne by (simp add: buf_def B samples_of_bytes_append [OF ev] samples_of_bytes_zeros)
    moreover have "length (samples_of_bytes (take (2 * k) chunk)) = k"
      using k by (simp add: samples_of_bytes_length)
    ultimately show ?thesis using that by (simp add: nth_append k_def [symmetric] B)
  qed
  from 1 2 3 4 show ?thesis by (rule that)
qed


subsection \<open>Events, analysis and the two paths\<close>

lemma onWsEvent_features:
  "currentRMS (fst (onWsEvent g ev)) = currentRMS g"
  "currentPeak (fst (onWsEvent g ev)) = currentPeak g"
  "lowFreqEnergy (fst (onWsEvent g ev)) = lowFreqEnergy g"
  "highFreqEnergy (fst (onWsEvent g ev)) = highFreqEnergy g"
  "environment (fst (onWsEvent g ev)) = environment g"
  "filter is_publish (snd (onWsEvent g ev)) = []"
  by (cases ev, cases "snd ev"; simp add: is_publish_def)+

lemma ws_loop_features:
  "currentRMS (fst (ws_loop g evs)) = currentRMS g"
  "currentPeak (fst (ws_loop g evs)) = currentPeak g"
  "lowFreqEnergy (fst (ws_loop g evs)) = lowFreqEnergy g"
  "highFreqEnergy (fst (ws_loop g evs)) = highFreqEnergy g"
  "environment (fst (ws_loop g evs)) = environment g"
  "filter is_publish (snd (ws_loop g evs)) = []"
  by (induction evs arbitrary: g; simp add: split_beta Let_def onWsEvent_features)+

lemma ws_loop_stays_disconnected:
  "\<not> clientConnected g \<Longrightarrow> WStype_CONNECTED \<notin> snd ` set evs
   \<Longrightarrow> \<not> clientConnected (fst (ws_loop g evs))"
proof (induction evs arbitrary: g)
  case Nil
  then show ?case by simp
next
  case (Cons ev evs)
  obtain num ty where ev: "ev = (num, ty)" by (cases ev)
  from Cons.prems have ty: "ty \<noteq> WStype_CONNECTED" by (auto simp: ev)
  then have "\<not> clientConnected (fst (onWsEvent g ev))"
    using Cons.prems(1) by (cases ty) (simp_all add: ev)
  moreover from Cons.prems have "WStype_CONNECTED \<notin> snd ` set evs" by simp
  ultimately have "\<not> clientConnected (fst (ws_loop (fst (onWsEvent g ev)) evs))"
    by (rule Cons.IH)
  then show ?case by (simp add: split_beta Let_def)
qed

lemma analyse_clientConnected: "clientConnected (analyse F g) = clientConnected g"
  by (simp add: analyse_def Let_def split_beta)

lemma analyse_features:
  "currentRMS (analyse F g) = calculateRMS F"
  "currentPeak (analyse F g) = Some (calculatePeak F)"
  "lowFreqEnergy (analyse F g) = fst (calculateFrequencyDistribution F)"
  "highFreqEnergy (analyse F g) = snd (calculateFrequencyDistribution F)"
  "environment (analyse F g) =
     classifyEnvironment (calculateRMS F) (fst (calculateFrequencyDistribution F))
       (snd (calculateFrequencyDistribution F))"
  by (simp_all add: analyse_def Let_def split_beta)

lemma iirLowPassFilter_Some:
  "xs \<noteq> [] \<Longrightarrow> \<exists>F. iirLowPassFilter xs alpha = Some F \<and> length F = length xs"
  by (cases xs) (simp_all add: iirLowPassFilter_def iir_loop_length)

text \<open>The two paths of \<open>loop\<close>.\<close>

lemma loop_failed:
  assumes "i2s_status (i2s inp) \<noteq> ESP_OK"
  shows "loop g inp =
           Some (fst (ws_loop g (ws_events inp)),
                 snd (ws_loop g (ws_events inp))
                 @ [Serial_print ''I2S read error: '', Serial_print_num (i2s_status (i2s inp)),
                    Delay dataInterval])"
proof -
  obtain buf where "read_block (i2s inp)
      = (i2s_status (i2s inp), length (take (BUFFER_SIZE * 2) (i2s_bytes (i2s inp))), Some buf)"
    by (rule read_block_samples)
  with assms show ?thesis by (simp add: loop_def split_beta Let_def)
qed

lemma loop_succeeded:
  fixes g :: globals and inp :: cycle_input
  assumes "i2s_status (i2s inp) = ESP_OK"
  defines "g1 \<equiv> fst (ws_loop g (ws_events inp))"
  defines "n \<equiv> length (take (BUFFER_SIZE * 2) (i2s_bytes (i2s inp)))"
  obtains buf F where "read_block (i2s inp) = (ESP_OK, n, Some buf)"
    and "iirLowPassFilter (samples_of_bytes buf) (1 / 4) = Some F"
    and "length F = BUFFER_SIZE"
    and "loop g inp =
           Some (analyse F g1,
                 snd (ws_loop g (ws_events inp))
                 @ (if n \<noteq> BUFFER_SIZE * 2
                    then [Serial_print ''Partial I2S read: '', Serial_print_num (int n)] else [])
                 @ [Serial_print ''Bytes read: '', Serial_print_num (int n)]
                 @ publish (analyse F g1) F
                 @ [Delay dataInterval])"
proof -
  obtain buf where rb: "read_block (i2s inp) = (i2s_status (i2s inp), n, Some buf)"
    and lb: "length (samples_of_bytes buf) = BUFFER_SIZE"
    unfolding n_def by (rule read_block_samples)
  from lb have "samples_of_bytes buf \<noteq> []" by (auto simp: BUFFER_SIZE_def)
  then obtain F where F: "iirLowPassFilter (samples_of_bytes buf) (1 / 4) = Some F"
    and lF: "length F = length (samples_of_bytes buf)"
    using iirLowPassFilter_Some by blast
  have "loop g inp =
           Some (analyse F g1,
                 snd (ws_loop g (ws_events inp))
                 @ (if n \<noteq> BUFFER_SIZE * 2
                    then [Serial_print ''Partial I2S read: '', Serial_print_num (int n)] else [])
                 @ [Serial_print ''Bytes read: '', Serial_print_num (int n)]
                 @ publish (analyse F g1) F
                 @ [Delay dataInterval])"
    using assms(1) by (simp add: loop_def split_beta Let_def rb F g1_def)
  with rb F lF lb assms(1) show ?thesis by (intro that) simp_all
qed

lemma loop_defined: "\<exists>r. loop g inp = Some r"
proof (cases "i2s_status (i2s inp) = ESP_OK")
  case True
  from loop_succeeded [OF True, of g] obtain r where "loop g inp = Some r" by metis
  then show ?thesis by blast
next
  case False
  then show ?thesis by (simp add: loop_failed)
qed

lemma run_defined: "\<exists>r. run g inps = Some r"
proof (induction inps arbitrary: g)
  case Nil
  show ?case by simp
next
  case (Cons inp inps)
  obtain g1 es1 where 1: "loop g inp = Some (g1, es1)" using loop_defined [of g inp] by auto
  obtain g2 es2 where 2: "run g1 inps = Some (g2, es2)" using Cons [of g1] by auto
  show ?case by (simp add: 1 2)
qed


lemma bytes_of_samples_length: "length (bytes_of_samples xs) = 2 * length xs"
  by (induction xs) (simp_all add: bytes_of_samples_def)

lemma downsample_length: "length (downsample F) = waveformLen"
  by (simp add: downsample_def)

text \<open>
  C5. When the read succeeds with fewer than \<open>2 * BUFFER_SIZE\<close> bytes, that is with
  \<open>N < BUFFER_SIZE\<close> whole samples, the block handed to the filter has length
  \<open>BUFFER_SIZE\<close>, holds the \<open>N\<close> samples read and the value 0 at every position from \<open>N\<close>
  on, and the RMS and the peak stored by the cycle are computed over all \<open>BUFFER_SIZE\<close>
  samples of the filtered block. The zeros come from the initialiser of the buffer and
  from the \<open>memset\<close> together: the \<open>memset\<close> clears \<open>BUFFER_SIZE - N\<close> bytes, which is
  half of the remainder, and the driver has not written past the bytes it reports.
\<close>

theorem short_read_zero_filled:
  fixes g :: globals and inp :: cycle_input
  assumes "i2s_status (i2s inp) = ESP_OK"
    and "length (i2s_bytes (i2s inp)) < BUFFER_SIZE * 2"
  shows "\<exists>buf F g' es.
           read_block (i2s inp) = (ESP_OK, length (i2s_bytes (i2s inp)), Some buf)
         \<and> length (samples_of_bytes buf) = BUFFER_SIZE
         \<and> (\<forall>i. length (i2s_bytes (i2s inp)) div 2 \<le> i \<and> i < BUFFER_SIZE
                \<longrightarrow> samples_of_bytes buf ! i = 0)
         \<and> (\<forall>i. i < length (i2s_bytes (i2s inp)) div 2
                \<longrightarrow> samples_of_bytes buf ! i
                    = word_cat (i2s_bytes (i2s inp) ! (2 * i + 1)) (i2s_bytes (i2s inp) ! (2 * i)))
         \<and> iirLowPassFilter (samples_of_bytes buf) (1 / 4) = Some F
         \<and> length F = BUFFER_SIZE
         \<and> loop g inp = Some (g', es)
         \<and> currentRMS g' = calculateRMS F
         \<and> currentPeak g' = Some (calculatePeak F)"
proof -
  define bytes where "bytes = i2s_bytes (i2s inp)"
  have t: "take (BUFFER_SIZE * 2) bytes = bytes" using assms(2) by (simp add: bytes_def)
  obtain buf where rb: "read_block (i2s inp) = (i2s_status (i2s inp), length bytes, Some buf)"
    and lb: "length (samples_of_bytes buf) = BUFFER_SIZE"
    and lo: "\<And>i. i < length bytes div 2 \<Longrightarrow>
           samples_of_bytes buf ! i = word_cat (bytes ! (2 * i + 1)) (bytes ! (2 * i))"
    and hi: "\<And>i. length bytes div 2 \<le> i \<Longrightarrow> i < BUFFER_SIZE \<Longrightarrow> length bytes < BUFFER_SIZE * 2
           \<Longrightarrow> samples_of_bytes buf ! i = 0"
    using read_block_samples [of "i2s inp"] unfolding bytes_def [symmetric] t by metis
  obtain buf' F where rb': "read_block (i2s inp)
        = (ESP_OK, length (take (BUFFER_SIZE * 2) (i2s_bytes (i2s inp))), Some buf')"
    and F: "iirLowPassFilter (samples_of_bytes buf') (1 / 4) = Some F"
    and lF: "length F = BUFFER_SIZE"
    and lp: "loop g inp =
           Some (analyse F (fst (ws_loop g (ws_events inp))),
                 snd (ws_loop g (ws_events inp))
                 @ (if length (take (BUFFER_SIZE * 2) (i2s_bytes (i2s inp))) \<noteq> BUFFER_SIZE * 2
                    then [Serial_print ''Partial I2S read: '',
                          Serial_print_num (int (length (take (BUFFER_SIZE * 2) (i2s_bytes (i2s inp)))))]
                    else [])
                 @ [Serial_print ''Bytes read: '',
                    Serial_print_num (int (length (take (BUFFER_SIZE * 2) (i2s_bytes (i2s inp)))))]
                 @ publish (analyse F (fst (ws_loop g (ws_events inp)))) F
                 @ [Delay dataInterval])"
    by (rule loop_succeeded [OF assms(1), of g])
  from rb rb' have same: "buf' = buf" by simp
  have "read_block (i2s inp) = (ESP_OK, length bytes, Some buf)" using rb assms(1) by simp
  moreover have "\<forall>i. length bytes div 2 \<le> i \<and> i < BUFFER_SIZE \<longrightarrow> samples_of_bytes buf ! i = 0"
    using hi assms(2) by (simp add: bytes_def)
  moreover have "\<forall>i. i < length bytes div 2
                \<longrightarrow> samples_of_bytes buf ! i = word_cat (bytes ! (2 * i + 1)) (bytes ! (2 * i))"
    using lo by simp
  moreover have "iirLowPassFilter (samples_of_bytes buf) (1 / 4) = Some F" using F same by simp
  moreover have "currentRMS (analyse F (fst (ws_loop g (ws_events inp)))) = calculateRMS F"
    "currentPeak (analyse F (fst (ws_loop g (ws_events inp)))) = Some (calculatePeak F)"
    by (simp_all add: analyse_features)
  ultimately show ?thesis using lb lF lp unfolding bytes_def by blast
qed

theorem short_read_zero_filled_witness:
  "i2s_status (i2s short_input) = ESP_OK
   \<and> length (i2s_bytes (i2s short_input)) < BUFFER_SIZE * 2
   \<and> (\<exists>buf F g' es.
         read_block (i2s short_input) = (ESP_OK, 3, Some buf)
       \<and> length (samples_of_bytes buf) = BUFFER_SIZE
       \<and> samples_of_bytes buf ! 0 = 0x1234
       \<and> samples_of_bytes buf ! 1 = 0
       \<and> samples_of_bytes buf ! 511 = 0
       \<and> iirLowPassFilter (samples_of_bytes buf) (1 / 4) = Some F
       \<and> length F = BUFFER_SIZE
       \<and> loop initial_globals short_input = Some (g', es)
       \<and> currentRMS g' = calculateRMS F
       \<and> currentPeak g' = Some (calculatePeak F))"
proof -
  have a: "i2s_status (i2s short_input) = ESP_OK" by (simp add: short_input_def ESP_OK_def)
  have b: "length (i2s_bytes (i2s short_input)) < BUFFER_SIZE * 2"
    by (simp add: short_input_def BUFFER_SIZE_def)
  have c: "word_cat (0x12 :: 8 word) (0x34 :: 8 word) = (0x1234 :: int16)"
    by (simp add: word_cat_eq)
  from short_read_zero_filled [OF a b, of initial_globals] obtain buf F g' es where
    h: "read_block (i2s short_input) = (ESP_OK, length (i2s_bytes (i2s short_input)), Some buf)"
     "length (samples_of_bytes buf) = BUFFER_SIZE"
     "\<forall>i. length (i2s_bytes (i2s short_input)) div 2 \<le> i \<and> i < BUFFER_SIZE
                \<longrightarrow> samples_of_bytes buf ! i = 0"
     "\<forall>i. i < length (i2s_bytes (i2s short_input)) div 2
                \<longrightarrow> samples_of_bytes buf ! i
                    = word_cat (i2s_bytes (i2s short_input) ! (2 * i + 1))
                        (i2s_bytes (i2s short_input) ! (2 * i))"
     "iirLowPassFilter (samples_of_bytes buf) (1 / 4) = Some F"
     "length F = BUFFER_SIZE"
     "loop initial_globals short_input = Some (g', es)"
     "currentRMS g' = calculateRMS F"
     "currentPeak g' = Some (calculatePeak F)"
    by blast
  have l: "length (i2s_bytes (i2s short_input)) = 3" "length (i2s_bytes (i2s short_input)) div 2 = 1"
    by (simp_all add: short_input_def)
  from h(4) have "samples_of_bytes buf ! 0 = 0x1234"
    unfolding l by (simp add: short_input_def c)
  moreover from h(3) have "samples_of_bytes buf ! 1 = 0" "samples_of_bytes buf ! 511 = 0"
    unfolding l by (simp_all add: BUFFER_SIZE_def)
  ultimately show ?thesis using a b h(1,2,5-9) unfolding l by blast
qed


lemma publish_sends:
  "filter is_publish (publish g F) =
     (if clientConnected g
      then [SerializeJson (make_json g (downsample F)), Ws_sendTXT 0 (make_json g (downsample F)),
            Ws_sendBIN 0 (bytes_of_samples F)]
      else [])"
  by (simp add: publish_def Let_def is_publish_def)

lemma loop_succeeded_sends:
  fixes g :: globals and inp :: cycle_input
  assumes "i2s_status (i2s inp) = ESP_OK"
  obtains buf F g' es where "read_block (i2s inp)
        = (ESP_OK, length (take (BUFFER_SIZE * 2) (i2s_bytes (i2s inp))), Some buf)"
    and "iirLowPassFilter (samples_of_bytes buf) (1 / 4) = Some F"
    and "length F = BUFFER_SIZE"
    and "loop g inp = Some (g', es)"
    and "g' = analyse F (fst (ws_loop g (ws_events inp)))"
    and "filter is_publish es = filter is_publish (publish g' F)"
proof -
  obtain buf F where 1: "read_block (i2s inp)
        = (ESP_OK, length (take (BUFFER_SIZE * 2) (i2s_bytes (i2s inp))), Some buf)"
    and 2: "iirLowPassFilter (samples_of_bytes buf) (1 / 4) = Some F"
    and 3: "length F = BUFFER_SIZE"
    and lp: "loop g inp =
           Some (analyse F (fst (ws_loop g (ws_events inp))),
                 snd (ws_loop g (ws_events inp))
                 @ (if length (take (BUFFER_SIZE * 2) (i2s_bytes (i2s inp))) \<noteq> BUFFER_SIZE * 2
                    then [Serial_print ''Partial I2S read: '',
                          Serial_print_num (int (length (take (BUFFER_SIZE * 2) (i2s_bytes (i2s inp)))))]
                    else [])
                 @ [Serial_print ''Bytes read: '',
                    Serial_print_num (int (length (take (BUFFER_SIZE * 2) (i2s_bytes (i2s inp)))))]
                 @ publish (analyse F (fst (ws_loop g (ws_events inp)))) F
                 @ [Delay dataInterval])"
    by (rule loop_succeeded [OF assms, of g])
  show ?thesis
    by (rule that [OF 1 2 3 lp refl]) (simp add: ws_loop_features is_publish_def)
qed

lemma run_no_sends:
  assumes "\<not> clientConnected g"
    and "\<forall>inp \<in> set inps. WStype_CONNECTED \<notin> snd ` set (ws_events inp)"
  shows "\<exists>g' es. run g inps = Some (g', es) \<and> \<not> clientConnected g' \<and> filter is_publish es = []"
  using assms
proof (induction inps arbitrary: g)
  case Nil
  then show ?case by simp
next
  case (Cons inp inps)
  from Cons.prems have ev: "WStype_CONNECTED \<notin> snd ` set (ws_events inp)" by simp
  have dc: "\<not> clientConnected (fst (ws_loop g (ws_events inp)))"
    using Cons.prems(1) ev by (rule ws_loop_stays_disconnected)
  have "\<exists>g1 es1. loop g inp = Some (g1, es1) \<and> \<not> clientConnected g1
                 \<and> filter is_publish es1 = []"
  proof (cases "i2s_status (i2s inp) = ESP_OK")
    case True
    from loop_succeeded_sends [OF True, of g] obtain F g1 es1
      where "loop g inp = Some (g1, es1)"
        and "g1 = analyse F (fst (ws_loop g (ws_events inp)))"
        and "filter is_publish es1 = filter is_publish (publish g1 F)"
      by metis
    then show ?thesis using dc by (simp add: publish_sends analyse_clientConnected)
  next
    case False
    then show ?thesis using dc
      by (simp add: loop_failed ws_loop_features is_publish_def)
  qed
  then obtain g1 es1 where 1: "loop g inp = Some (g1, es1)" "\<not> clientConnected g1"
    "filter is_publish es1 = []" by blast
  from Cons.prems have "\<forall>inp \<in> set inps. WStype_CONNECTED \<notin> snd ` set (ws_events inp)" by simp
  from Cons.IH [OF 1(2) this] obtain g2 es2 where 2: "run g1 inps = Some (g2, es2)"
    "\<not> clientConnected g2" "filter is_publish es2 = []" by blast
  show ?case by (simp add: 1 2)
qed

text \<open>
  C6. In every cycle whose read succeeds: if a client is connected (after the events
  of \<open>ws.loop()\<close>), the cycle serialises one document, holding the four features, the
  label and the 256 points of the waveform, sends it as one text message and then sends
  the filtered block as one binary message of \<open>2 * BUFFER_SIZE\<close> bytes, in that order and
  nothing else; if no client is connected it serialises and sends nothing. Over any
  number of cycles without a connected client nothing is serialised or sent. (The
  serial log line of each cycle is not a message to the client.)
\<close>

theorem publish_text_then_binary:
  fixes g :: globals and inp :: cycle_input
  assumes "i2s_status (i2s inp) = ESP_OK"
  shows "(\<exists>buf F g' es doc.
            read_block (i2s inp)
              = (ESP_OK, length (take (BUFFER_SIZE * 2) (i2s_bytes (i2s inp))), Some buf)
          \<and> iirLowPassFilter (samples_of_bytes buf) (1 / 4) = Some F
          \<and> loop g inp = Some (g', es)
          \<and> clientConnected g' = clientConnected (fst (ws_loop g (ws_events inp)))
          \<and> doc = \<lparr>json_rms = calculateRMS F, json_peak = Some (calculatePeak F),
                    json_lowEnergy = fst (calculateFrequencyDistribution F),
                    json_highEnergy = snd (calculateFrequencyDistribution F),
                    json_environment = environment g', json_waveform = downsample F\<rparr>
          \<and> length (json_waveform doc) = 256
          \<and> length (bytes_of_samples F) = 2 * BUFFER_SIZE
          \<and> (clientConnected g' \<longrightarrow>
                filter is_publish es
                  = [SerializeJson doc, Ws_sendTXT 0 doc, Ws_sendBIN 0 (bytes_of_samples F)])
          \<and> (\<not> clientConnected g' \<longrightarrow> filter is_publish es = []))
       \<and> (\<not> clientConnected g
            \<and> (\<forall>c \<in> set inps. WStype_CONNECTED \<notin> snd ` set (ws_events c))
            \<longrightarrow> (\<exists>g' es. run g inps = Some (g', es) \<and> filter is_publish es = []))"
proof -
  from loop_succeeded_sends [OF assms, of g] obtain buf F g' es
    where 1: "read_block (i2s inp)
        = (ESP_OK, length (take (BUFFER_SIZE * 2) (i2s_bytes (i2s inp))), Some buf)"
      and 2: "iirLowPassFilter (samples_of_bytes buf) (1 / 4) = Some F"
      and 3: "length F = BUFFER_SIZE"
      and 4: "loop g inp = Some (g', es)"
      and 5: "g' = analyse F (fst (ws_loop g (ws_events inp)))"
      and 6: "filter is_publish es = filter is_publish (publish g' F)"
    by metis
  define doc where "doc = \<lparr>json_rms = calculateRMS F, json_peak = Some (calculatePeak F),
                    json_lowEnergy = fst (calculateFrequencyDistribution F),
                    json_highEnergy = snd (calculateFrequencyDistribution F),
                    json_environment = environment g', json_waveform = downsample F\<rparr>"
  have mj: "make_json g' (downsample F) = doc"
    unfolding 5 doc_def by (simp add: make_json_def analyse_features)
  have 7: "clientConnected g' = clientConnected (fst (ws_loop g (ws_events inp)))"
    by (simp add: 5 analyse_clientConnected)
  have 8: "length (json_waveform doc) = 256"
    by (simp add: doc_def downsample_length waveformLen_def)
  have 9: "length (bytes_of_samples F) = 2 * BUFFER_SIZE"
    by (simp add: bytes_of_samples_length 3)
  have 10: "clientConnected g' \<longrightarrow> filter is_publish es
                  = [SerializeJson doc, Ws_sendTXT 0 doc, Ws_sendBIN 0 (bytes_of_samples F)]"
    by (simp add: 6 publish_sends mj)
  have 11: "\<not> clientConnected g' \<longrightarrow> filter is_publish es = []"
    by (simp add: 6 publish_sends)
  have A: "\<exists>buf F g' es doc.
            read_block (i2s inp)
              = (ESP_OK, length (take (BUFFER_SIZE * 2) (i2s_bytes (i2s inp))), Some buf)
          \<and> iirLowPassFilter (samples_of_bytes buf) (1 / 4) = Some F
          \<and> loop g inp = Some (g', es)
          \<and> clientConnected g' = clientConnected (fst (ws_loop g (ws_events inp)))
          \<and> doc = \<lparr>json_rms = calculateRMS F, json_peak = Some (calculatePeak F),
                    json_lowEnergy = fst (calculateFrequencyDistribution F),
                    json_highEnergy = snd (calculateFrequencyDistribution F),
                    json_environment = environment g', json_waveform = downsample F\<rparr>
          \<and> length (json_waveform doc) = 256
          \<and> length (bytes_of_samples F) = 2 * BUFFER_SIZE
          \<and> (clientConnected g' \<longrightarrow>
                filter is_publish es
                  = [SerializeJson doc, Ws_sendTXT 0 doc, Ws_sendBIN 0 (bytes_of_samples F)])
          \<and> (\<not> clientConnected g' \<longrightarrow> filter is_publish es = [])"
    using 1 2 4 7 doc_def 8 9 10 11 by blast
  have B: "\<not> clientConnected g
            \<and> (\<forall>c \<in> set inps. WStype_CONNECTED \<notin> snd ` set (ws_events c))
            \<longrightarrow> (\<exists>g' es. run g inps = Some (g', es) \<and> filter is_publish es = [])"
    using run_no_sends [of g inps] by blast
  from A B show ?thesis by (rule conjI)
qed


theorem publish_text_then_binary_witness:
  "i2s_status (i2s connect_input) = ESP_OK
   \<and> (\<exists>F g' es doc. loop initial_globals connect_input = Some (g', es)
          \<and> clientConnected g' \<and> length (json_waveform doc) = 256
          \<and> filter is_publish es
              = [SerializeJson doc, Ws_sendTXT 0 doc, Ws_sendBIN 0 (bytes_of_samples F)])
   \<and> \<not> clientConnected initial_globals
   \<and> WStype_CONNECTED \<notin> snd ` set (ws_events quiet_input)
   \<and> WStype_CONNECTED \<notin> snd ` set (ws_events failing_input)
   \<and> (\<exists>g' es. run initial_globals [quiet_input, failing_input, quiet_input] = Some (g', es)
          \<and> filter is_publish es = [])"
proof -
  have a: "i2s_status (i2s connect_input) = ESP_OK" by (simp add: connect_input_def ESP_OK_def)
  have b: "\<not> clientConnected initial_globals" by (simp add: initial_globals_def)
  have c: "\<forall>c \<in> set [quiet_input, failing_input, quiet_input].
          WStype_CONNECTED \<notin> snd ` set (ws_events c)"
    by (simp add: quiet_input_def failing_input_def)
  have d: "clientConnected (fst (ws_loop initial_globals (ws_events connect_input)))"
    by (simp add: connect_input_def)
  note t = publish_text_then_binary [OF a, of initial_globals
      "[quiet_input, failing_input, quiet_input]"]
  from t d have "\<exists>F g' es doc. loop initial_globals connect_input = Some (g', es)
          \<and> clientConnected g' \<and> length (json_waveform doc) = 256
          \<and> filter is_publish es
              = [SerializeJson doc, Ws_sendTXT 0 doc, Ws_sendBIN 0 (bytes_of_samples F)]"
    by metis
  moreover from t b c
  have "\<exists>g' es. run initial_globals [quiet_input, failing_input, quiet_input] = Some (g', es)
          \<and> filter is_publish es = []"
    by blast
  moreover have "WStype_CONNECTED \<notin> snd ` set (ws_events quiet_input)"
    "WStype_CONNECTED \<notin> snd ` set (ws_events failing_input)"
    by (simp_all add: quiet_input_def failing_input_def)
  ultimately show ?thesis using a b by blast
qed

text \<open>
  C7. In every cycle whose read fails (a status other than \<open>ESP_OK\<close>) the cycle is
  skipped: the features and the label keep their values, nothing is serialised or
  sent, the only effects after the events of \<open>ws.loop()\<close> are the two log prints and the
  fixed delay of 30 ms, and the following cycles run as usual from the state left.
\<close>

theorem failed_read_skips_cycle:
  fixes g :: globals and inp :: cycle_input
  assumes "i2s_status (i2s inp) \<noteq> ESP_OK"
  shows "\<exists>g' es.
           loop g inp = Some (g', es)
         \<and> currentRMS g' = currentRMS g \<and> currentPeak g' = currentPeak g
         \<and> lowFreqEnergy g' = lowFreqEnergy g \<and> highFreqEnergy g' = highFreqEnergy g
         \<and> environment g' = environment g
         \<and> es = snd (ws_loop g (ws_events inp))
                @ [Serial_print ''I2S read error: '', Serial_print_num (i2s_status (i2s inp)),
                   Delay dataInterval]
         \<and> filter is_publish es = []
         \<and> dataInterval = 30
         \<and> (\<exists>g'' es'. run g' inps = Some (g'', es')
                \<and> run g (inp # inps) = Some (g'', es @ es'))"
proof -
  define g' where "g' = fst (ws_loop g (ws_events inp))"
  define es where "es = snd (ws_loop g (ws_events inp))
                @ [Serial_print ''I2S read error: '', Serial_print_num (i2s_status (i2s inp)),
                   Delay dataInterval]"
  have 1: "loop g inp = Some (g', es)" using assms by (simp add: loop_failed g'_def es_def)
  have 2: "currentRMS g' = currentRMS g" "currentPeak g' = currentPeak g"
    "lowFreqEnergy g' = lowFreqEnergy g" "highFreqEnergy g' = highFreqEnergy g"
    "environment g' = environment g"
    by (simp_all add: g'_def ws_loop_features)
  have 3: "filter is_publish es = []" by (simp add: es_def ws_loop_features is_publish_def)
  obtain g'' es' where 4: "run g' inps = Some (g'', es')" using run_defined [of g' inps] by auto
  have 5: "run g (inp # inps) = Some (g'', es @ es')" by (simp add: 1 4)
  have 6: "dataInterval = 30" by (simp add: dataInterval_def)
  from 1 2 3 4 5 6 es_def show ?thesis by blast
qed

theorem failed_read_skips_cycle_witness:
  "i2s_status (i2s failing_input) \<noteq> ESP_OK
   \<and> (\<exists>g'' es'. loop initial_globals failing_input
           = Some (initial_globals,
                   [Serial_print ''I2S read error: '', Serial_print_num (- 1), Delay 30])
        \<and> run initial_globals [connect_input] = Some (g'', es')
        \<and> run initial_globals [failing_input, connect_input]
           = Some (g'', [Serial_print ''I2S read error: '', Serial_print_num (- 1), Delay 30]
                        @ es'))"
proof -
  have a: "i2s_status (i2s failing_input) \<noteq> ESP_OK"
    by (simp add: failing_input_def ESP_OK_def)
  from failed_read_skips_cycle [OF a, of initial_globals "[connect_input]"]
  obtain g' es g'' es' where h: "loop initial_globals failing_input = Some (g', es)"
    "currentRMS g' = currentRMS initial_globals"
    "es = snd (ws_loop initial_globals (ws_events failing_input))
          @ [Serial_print ''I2S read error: '', Serial_print_num (i2s_status (i2s failing_input)),
             Delay dataInterval]"
    "dataInterval = 30"
    "run g' [connect_input] = Some (g'', es')"
    "run initial_globals [failing_input, connect_input] = Some (g'', es @ es')"
    by blast
  have es: "es = [Serial_print ''I2S read error: '', Serial_print_num (- 1), Delay 30]"
    using h(3,4) by (simp add: failing_input_def)
  have "loop initial_globals failing_input = Some (initial_globals, es)"
    using a by (simp add: loop_failed es h(4)) (simp add: failing_input_def)
  with h(1) have "g' = initial_globals" by simp
  with h es a show ?thesis by auto
qed

section \<open>RMS and peak\<close>

subsection \<open>The sum of squares and its root\<close>

lemma f32_of_square:
  fixes x :: int16
  defines "a \<equiv> sint x * sint x"
  shows "0 \<le> a" and "f32_of_int a = 0 \<or> 1 \<le> f32_of_int a"
    and "of_int a * (1 - unit_roundoff) \<le> f32_of_int a"
    and "f32_of_int a \<le> of_int a * (1 + unit_roundoff)"
    and "a = 0 \<Longrightarrow> f32_of_int a = 0"
proof -
  show a0: "0 \<le> a" by (simp add: a_def)
  show z: "a = 0 \<Longrightarrow> f32_of_int a = 0" by (simp add: f32_of_int_def fl_0)
  have c: "(of_int a :: real) = 0 \<or> 2 powi (- 126) \<le> (of_int a :: real)"
  proof (cases "a = 0")
    case True
    then show ?thesis by simp
  next
    case False
    with a0 have "1 \<le> a" by simp
    then have "(1::real) \<le> of_int a" by simp
    moreover have "(2::real) powi (- 126) \<le> 1" by (simp add: power_int_minus_divide)
    ultimately show ?thesis by linarith
  qed
  show "of_int a * (1 - unit_roundoff) \<le> f32_of_int a"
    unfolding f32_of_int_def using c by (rule fl_nonneg_bounds)
  show "f32_of_int a \<le> of_int a * (1 + unit_roundoff)"
    unfolding f32_of_int_def using c by (rule fl_nonneg_bounds)
  show "f32_of_int a = 0 \<or> 1 \<le> f32_of_int a"
  proof (cases "a = 0")
    case True
    then show ?thesis using z by blast
  next
    case False
    with a0 have "1 \<le> a" by simp
    then have "(2::real) powi 0 \<le> of_int a" by simp
    then have "2 powi 0 \<le> fl (of_int a)" by (rule fl_ge_pow2) simp
    then show ?thesis by (simp add: f32_of_int_def)
  qed
qed

lemma fadd_bounds:
  assumes "s = 0 \<or> 1 \<le> s" and "q = 0 \<or> 1 \<le> q"
  shows "fadd s q = 0 \<or> 1 \<le> fadd s q"
    and "(s + q) * (1 - unit_roundoff) \<le> fadd s q"
    and "fadd s q \<le> (s + q) * (1 + unit_roundoff)"
proof -
  have c: "s + q = 0 \<or> 1 \<le> s + q" using assms by auto
  have p: "(2::real) powi (- 126) \<le> 1" by (simp add: power_int_minus_divide)
  from c p have c': "s + q = 0 \<or> 2 powi (- 126) \<le> s + q" by linarith
  show "(s + q) * (1 - unit_roundoff) \<le> fadd s q"
    unfolding fadd_def using c' by (rule fl_nonneg_bounds)
  show "fadd s q \<le> (s + q) * (1 + unit_roundoff)"
    unfolding fadd_def using c' by (rule fl_nonneg_bounds)
  show "fadd s q = 0 \<or> 1 \<le> fadd s q"
  proof (cases "s + q = 0")
    case True
    then show ?thesis by (simp add: fadd_def fl_0)
  next
    case False
    with c have "(2::real) powi 0 \<le> s + q" by simp
    then have "2 powi 0 \<le> fl (s + q)" by (rule fl_ge_pow2) simp
    then show ?thesis by (simp add: fadd_def)
  qed
qed

lemma rms_sum_bounds:
  fixes xs :: "int16 list"
  defines "T \<equiv> \<lambda>ys :: int16 list. (of_int (sum_list (map (\<lambda>x. sint x * sint x) ys)) :: real)"
  assumes "s = 0 \<or> 1 \<le> s"
  shows "(rms_sum s xs = 0 \<or> 1 \<le> rms_sum s xs)
       \<and> (s + (1 - unit_roundoff) * T xs) * (1 - unit_roundoff) ^ length xs \<le> rms_sum s xs
       \<and> rms_sum s xs \<le> (s + (1 + unit_roundoff) * T xs) * (1 + unit_roundoff) ^ length xs"
  using assms(2)
proof (induction xs arbitrary: s)
  case Nil
  then show ?case by (simp add: T_def)
next
  case (Cons x xs)
  define u where "u = 1 + unit_roundoff"
  define l where "l = 1 - unit_roundoff"
  define a :: real where "a = of_int (sint x * sint x)"
  define q where "q = f32_of_int (sint x * sint x)"
  define s' where "s' = fadd s q"
  have u: "1 \<le> u" "0 \<le> u" and l: "0 \<le> l" "l \<le> 1"
    by (simp_all add: u_def l_def unit_roundoff_def)
  have a0: "0 \<le> a" unfolding a_def using f32_of_square(1) [of x] by simp
  have "0 \<le> sum_list (map (\<lambda>x. sint x * sint x) xs)"
    by (rule sum_list_nonneg) auto
  then have T0: "0 \<le> T xs" unfolding T_def by simp
  have TC: "T (x # xs) = a + T xs" by (simp add: T_def a_def)
  have q: "q = 0 \<or> 1 \<le> q" "a * l \<le> q" "q \<le> a * u"
    unfolding q_def a_def l_def u_def by (rule f32_of_square)+
  have s0: "0 \<le> s" using Cons.prems by auto
  have s': "s' = 0 \<or> 1 \<le> s'" "(s + q) * l \<le> s'" "s' \<le> (s + q) * u"
    unfolding s'_def l_def u_def by (rule fadd_bounds [OF Cons.prems q(1)])+
  from Cons.IH [OF s'(1)]
  have IH: "rms_sum s' xs = 0 \<or> 1 \<le> rms_sum s' xs"
    "(s' + l * T xs) * l ^ length xs \<le> rms_sum s' xs"
    "rms_sum s' xs \<le> (s' + u * T xs) * u ^ length xs"
    by (simp_all add: l_def u_def)
  have r: "rms_sum s (x # xs) = rms_sum s' xs" by (simp add: s'_def q_def)
  have up: "s' + u * T xs \<le> (s + u * (a + T xs)) * u"
  proof -
    have "(s + q) * u \<le> (s + a * u) * u" using q(3) u by (intro mult_right_mono) simp_all
    with s'(3) have 1: "s' \<le> s * u + a * u * u" by (simp add: algebra_simps)
    have "1 * (u * T xs) \<le> u * (u * T xs)" using u T0 by (intro mult_right_mono) simp_all
    then have 2: "u * T xs \<le> T xs * u * u" by (simp add: algebra_simps)
    have "(s + u * (a + T xs)) * u = s * u + a * u * u + T xs * u * u" by (simp add: algebra_simps)
    with 1 2 show ?thesis by linarith
  qed
  have lo: "(s + l * (a + T xs)) * l \<le> s' + l * T xs"
  proof -
    have "(s + a * l) * l \<le> (s + q) * l" using q(2) l by (intro mult_right_mono) simp_all
    with s'(2) have 1: "s * l + a * l * l \<le> s'" by (simp add: algebra_simps)
    have "l * (l * T xs) \<le> 1 * (l * T xs)" using l T0 by (intro mult_right_mono) simp_all
    then have 2: "T xs * l * l \<le> l * T xs" by (simp add: algebra_simps)
    have "(s + l * (a + T xs)) * l = s * l + a * l * l + T xs * l * l" by (simp add: algebra_simps)
    with 1 2 show ?thesis by linarith
  qed
  have "rms_sum s' xs \<le> (s' + u * T xs) * u ^ length xs" by (rule IH(3))
  also have "\<dots> \<le> ((s + u * (a + T xs)) * u) * u ^ length xs"
    using up u by (intro mult_right_mono) simp_all
  finally have U: "rms_sum s' xs \<le> (s + u * T (x # xs)) * u ^ length (x # xs)"
    by (simp add: TC mult.assoc)
  have "(s + l * T (x # xs)) * l ^ length (x # xs) = ((s + l * (a + T xs)) * l) * l ^ length xs"
    by (simp add: TC mult.assoc)
  also have "\<dots> \<le> (s' + l * T xs) * l ^ length xs"
    using lo l by (intro mult_right_mono) simp_all
  also have "\<dots> \<le> rms_sum s' xs" by (rule IH(2))
  finally have L: "(s + l * T (x # xs)) * l ^ length (x # xs) \<le> rms_sum s' xs" .
  from IH(1) L U show ?case unfolding r l_def u_def by blast
qed


lemma calculateRMS_bounds:
  assumes "B \<noteq> []" and "length B < 2 ^ 24"
  obtains r where "calculateRMS B = Some r" and "0 \<le> r"
    and "mean_square B * (1 - unit_roundoff) ^ (length B + 4) \<le> r\<^sup>2"
    and "r\<^sup>2 \<le> mean_square B * (1 + unit_roundoff) ^ (length B + 4)"
proof -
  define u where "u = 1 + unit_roundoff"
  define l where "l = 1 - unit_roundoff"
  define N where "N = length B"
  define T :: real where "T = of_int (sum_list (map (\<lambda>x. sint x * sint x) B))"
  define S where "S = rms_sum 0 B"
  define y where "y = fdiv S (f32_of_nat N)"
  define r where "r = fsqrt y"
  have u: "1 \<le> u" "0 \<le> u" and l: "0 \<le> l" "l \<le> 1"
    by (simp_all add: u_def l_def unit_roundoff_def)
  have N: "0 < N" "N < 2 ^ 24" using assms by (simp_all add: N_def)
  then have Nr: "0 < (of_nat N :: real)" "(of_nat N :: real) \<le> 2 ^ 24"
    by (simp, metis less_imp_le of_nat_le_iff of_nat_numeral of_nat_power)
  have "0 \<le> sum_list (map (\<lambda>x. sint x * sint x) B)" by (rule sum_list_nonneg) auto
  then have T0: "0 \<le> T" by (simp add: T_def)
  have ms: "mean_square B = T / of_nat N" by (simp add: mean_square_def T_def N_def)
  have rms: "calculateRMS B = Some r"
    using assms(1) by (simp add: calculateRMS_def r_def y_def S_def N_def)
  from rms_sum_bounds [of 0 B]
  have S: "S = 0 \<or> 1 \<le> S" "l * T * l ^ N \<le> S" "S \<le> u * T * u ^ N"
    by (simp_all add: S_def T_def l_def u_def N_def)
  have S0: "0 \<le> S" using S(1) by auto
  have yfl: "y = fl (S / of_nat N)"
    using N by (simp add: y_def fdiv_def f32_of_nat_exact)
  have c24: "S / of_nat N = 0 \<or> 2 powi (- 24) \<le> S / of_nat N"
  proof (cases "S = 0")
    case True
    then show ?thesis by simp
  next
    case False
    with S(1) have "1 \<le> S" by simp
    then have "1 / 2 ^ 24 \<le> S / of_nat N"
      using Nr by (intro frac_le) simp_all
    then show ?thesis by (simp add: power_int_minus_divide)
  qed
  have p24: "(2::real) powi (- 126) \<le> 2 powi (- 24)" by (intro power_int_increasing) simp_all
  from c24 p24 have c: "S / of_nat N = 0 \<or> 2 powi (- 126) \<le> S / of_nat N" by linarith
  have y: "S / of_nat N * l \<le> y" "y \<le> S / of_nat N * u"
    unfolding yfl l_def u_def using c by (rule fl_nonneg_bounds)+
  have y24: "y = 0 \<or> 2 powi (- 24) \<le> y"
  proof (cases "S / of_nat N = 0")
    case True
    then have "y = 0" unfolding yfl by (simp only: fl_0)
    then show ?thesis by simp
  next
    case False
    with c24 have "2 powi (- 24) \<le> S / of_nat N" by simp
    then have "2 powi (- 24) \<le> fl (S / of_nat N)" by (rule fl_ge_pow2) simp
    then show ?thesis by (simp add: yfl)
  qed
  have y0: "0 \<le> y" using y24 by (auto intro: order_trans [rotated])
  have rfl: "r = fl (sqrt y)" by (simp add: r_def fsqrt_def)
  have cs: "sqrt y = 0 \<or> 2 powi (- 126) \<le> sqrt y"
  proof (cases "y = 0")
    case True
    then show ?thesis by simp
  next
    case False
    with y24 have "2 powi (- 24) \<le> y" by simp
    then have "sqrt (2 powi (- 24)) \<le> sqrt y" by simp
    moreover have "sqrt (2 powi (- 24)) = 2 powi (- 12)"
      by (intro real_sqrt_unique) (simp_all add: power_int_minus_divide power2_eq_square)
    moreover have "(2::real) powi (- 126) \<le> 2 powi (- 12)"
      by (intro power_int_increasing) simp_all
    ultimately show ?thesis by linarith
  qed
  have rb: "sqrt y * l \<le> r" "r \<le> sqrt y * u"
    unfolding rfl l_def u_def using cs by (rule fl_nonneg_bounds)+
  have r0: "0 \<le> r" using rb(1) l y0 by (meson mult_nonneg_nonneg order_trans real_sqrt_ge_zero)
  have "r\<^sup>2 \<le> (sqrt y * u)\<^sup>2" using rb(2) r0 by (intro power_mono) simp_all
  also have "\<dots> = y * u ^ 2" using y0 by (simp add: power_mult_distrib)
  also have "\<dots> \<le> (S / of_nat N * u) * u ^ 2" using y(2) u by (intro mult_right_mono) simp_all
  also have "\<dots> \<le> (u * T * u ^ N / of_nat N * u) * u ^ 2"
    using S(3) u Nr by (intro mult_right_mono divide_right_mono) simp_all
  also have "\<dots> = T / of_nat N * u ^ (N + 4)" by (simp add: power_add power2_eq_square power4_eq_xxxx)
  finally have U: "r\<^sup>2 \<le> mean_square B * u ^ (N + 4)" by (simp add: ms)
  have "T / of_nat N * l ^ (N + 4) = (l * T * l ^ N / of_nat N * l) * l ^ 2"
    by (simp add: power_add power2_eq_square power4_eq_xxxx)
  also have "\<dots> \<le> (S / of_nat N * l) * l ^ 2"
    using S(2) l Nr by (intro mult_right_mono divide_right_mono) simp_all
  also have "\<dots> \<le> y * l ^ 2" using y(1) l by (intro mult_right_mono) simp_all
  also have "\<dots> = (sqrt y * l)\<^sup>2" using y0 by (simp add: power_mult_distrib)
  also have "\<dots> \<le> r\<^sup>2" using rb(1) l y0 by (intro power_mono) simp_all
  finally have L: "mean_square B * l ^ (N + 4) \<le> r\<^sup>2" by (simp add: ms)
  from rms r0 L U show ?thesis unfolding l_def u_def N_def by (rule that)
qed

lemma sint_neg_square: "sint (- x) * sint (- x) = sint x * sint x" for x :: int16
proof -
  have n: "sint (- x) = signed_take_bit 15 (- sint x)" by (simp add: sint_word_ariths)
  show ?thesis
  proof (cases "sint x = - 32768")
    case True
    then show ?thesis by (simp add: n)
  next
    case False
    with sint16_range [of x] have "- 32768 \<le> - sint x" "- sint x < 32768" by simp_all
    then have "signed_take_bit 15 (- sint x) = - sint x"
      by (simp add: signed_take_bit_int_eq_self)
    then show ?thesis by (simp add: n)
  qed
qed

lemma rms_sum_neg: "rms_sum s (map uminus xs) = rms_sum s xs"
  by (induction xs arbitrary: s) (simp_all add: sint_neg_square)

lemma calculateRMS_neg: "calculateRMS (map uminus B) = calculateRMS B"
  by (simp add: calculateRMS_def rms_sum_neg)

lemma mean_square_zero_iff:
  assumes "B \<noteq> []"
  shows "mean_square B = 0 \<longleftrightarrow> (\<forall>x \<in> set B. x = 0)"
proof -
  have "sum_list (map (\<lambda>x. sint x * sint x) B) = 0
        \<longleftrightarrow> (\<forall>a \<in> set (map (\<lambda>x. sint x * sint x) B). a = 0)"
    by (rule sum_list_nonneg_eq_0_iff) auto
  also have "\<dots> \<longleftrightarrow> (\<forall>x \<in> set B. x = 0)" by (auto simp: signed_eq_0_iff)
  finally show ?thesis using assms by (simp add: mean_square_def)
qed

lemma mean_square_nonneg: "0 \<le> mean_square B"
proof -
  have "0 \<le> sum_list (map (\<lambda>x. sint x * sint x) B)" by (rule sum_list_nonneg) auto
  then show ?thesis by (simp add: mean_square_def)
qed


subsection \<open>A block whose RMS is rounded above its peak\<close>

text \<open>
  Five samples of value 3665. The squares are exact; the third, fourth and fifth sums
  round to multiples of 4, 4 and 8; the quotient by 5 rounds up to 13432226; its root
  lies above the midpoint of 3665 and the next \<open>float\<close>.
\<close>

lemma rms_sum_3665:
  "rms_sum 0 [3665, 3665, 3665, 3665, 3665 :: int16] = 67161128"
proof -
  have q: "f32_of_int 13432225 = 13432225"
    by (simp add: f32_of_int_exact)
  have s1: "fadd 0 13432225 = 13432225"
    using fl_int [of 13432225] by (simp add: fadd_def)
  have s2: "fadd 13432225 13432225 = 26864450"
    using fl_exact [of 13432225 1] by (simp add: fadd_def)
  have s3: "fadd 26864450 13432225 = 40296676"
    using fl_eqI [of 25 40296675 10074169] by (simp add: fadd_def)
  have s4: "fadd 40296676 13432225 = 53728900"
    using fl_eqI [of 25 53728901 13432225] by (simp add: fadd_def)
  have s5: "fadd 53728900 13432225 = 67161128"
    using fl_eqI [of 26 67161125 8395141] by (simp add: fadd_def)
  show ?thesis by (simp add: q s1 s2 s3 s4 s5)
qed

lemma calculateRMS_3665:
  "calculateRMS [3665, 3665, 3665, 3665, 3665 :: int16] = Some (3665 + 1 / 4096)"
proof -
  have n: "f32_of_nat 5 = 5" using f32_of_nat_exact [of 5] by simp
  have y: "fdiv 67161128 5 = 13432226"
    using fl_eqI [of 23 "67161128 / 5" 13432226] by (simp add: fdiv_def)
  have lo: "(2048::real) \<le> sqrt 13432226" by (rule real_le_rsqrt) simp
  have hi: "sqrt 13432226 < (4096::real)" by (rule real_less_lsqrt) simp_all
  have a: "(30023681 / 8192 :: real) < sqrt 13432226" by (rule real_less_rsqrt) (simp add: power2_eq_square)
  have b: "sqrt 13432226 < (30023683 / 8192 :: real)"
    by (rule real_less_lsqrt) (simp_all add: power2_eq_square)
  have "fl (sqrt 13432226) = of_int 15011841 * 2 powi (11 - 23)"
  proof (rule fl_eqI)
    show "2 powi 11 \<le> \<bar>sqrt 13432226\<bar>" using lo by simp
    show "\<bar>sqrt 13432226\<bar> < 2 powi (11 + 1)" using hi by simp
    show "- 126 \<le> (11::int)" by simp
    have "- (1 / 2) < sqrt 13432226 * 4096 - 15011841"
      "sqrt 13432226 * 4096 - 15011841 < 1 / 2"
      using a b by simp_all
    then show "\<bar>sqrt 13432226 * 2 powi (23 - 11) - of_int 15011841\<bar> < 1 / 2"
      unfolding abs_less_iff by simp
  qed
  then have r: "fsqrt 13432226 = 3665 + 1 / 4096"
    by (simp add: fsqrt_def power_int_minus_divide)
  have len: "length [3665, 3665, 3665, 3665, 3665 :: int16] = 5" by simp
  show ?thesis unfolding calculateRMS_def rms_sum_3665 len n y r by simp
qed

lemma calculatePeak_3665:
  "calculatePeak [3665, 3665, 3665, 3665, 3665 :: int16] = 3665"
  by (simp add: calculatePeak_def Let_def f32_of_int_exact)


subsection \<open>The peak\<close>

lemma peak_loop_max:
  assumes "0 \<le> p" and "p \<le> 32768"
  shows "peak_loop (of_int p) xs = of_int (Max (insert p ((\<lambda>x. \<bar>sint x\<bar>) ` set xs)))"
  using assms
proof (induction xs arbitrary: p)
  case Nil
  then show ?case by simp
next
  case (Cons x xs)
  define a where "a = \<bar>sint x\<bar>"
  have a: "0 \<le> a" "a \<le> 32768" using sint16_range [of x] by (simp_all add: a_def)
  then have fa: "f32_of_int a = of_int a" by (simp add: f32_of_int_exact)
  have "peak_loop (of_int p) (x # xs) = peak_loop (of_int (max p a)) xs"
    by (simp add: Let_def a_def [symmetric] fa max_def)
  also have "\<dots> = of_int (Max (insert (max p a) ((\<lambda>x. \<bar>sint x\<bar>) ` set xs)))"
    using Cons.prems a by (intro Cons.IH) simp_all
  also have "Max (insert (max p a) ((\<lambda>x. \<bar>sint x\<bar>) ` set xs))
             = Max (insert p ((\<lambda>x. \<bar>sint x\<bar>) ` set (x # xs)))"
  proof (cases "xs = []")
    case True
    then show ?thesis by (simp add: a_def max.commute)
  next
    case False
    then show ?thesis by (simp add: a_def max.assoc)
  qed
  finally show ?case .
qed

lemma calculatePeak_max:
  assumes "B \<noteq> []"
  shows "calculatePeak B = of_int (Max ((\<lambda>x. \<bar>sint x\<bar>) ` set B))"
proof -
  have "calculatePeak B = of_int (Max (insert 0 ((\<lambda>x. \<bar>sint x\<bar>) ` set B)))"
    using peak_loop_max [of 0 B] by (simp add: calculatePeak_def)
  moreover have "Max (insert 0 ((\<lambda>x. \<bar>sint x\<bar>) ` set B)) = Max ((\<lambda>x. \<bar>sint x\<bar>) ` set B)"
  proof -
    from assms obtain x where "x \<in> set B" by (cases B) auto
    then have "\<bar>sint x\<bar> \<le> Max ((\<lambda>x. \<bar>sint x\<bar>) ` set B)" by (intro Max_ge) auto
    then have "0 \<le> Max ((\<lambda>x. \<bar>sint x\<bar>) ` set B)" by linarith
    then show ?thesis using assms by (simp add: max_def)
  qed
  ultimately show ?thesis by simp
qed

lemma mean_square_le_peak:
  assumes "B \<noteq> []"
  shows "mean_square B \<le> (calculatePeak B)\<^sup>2"
proof -
  define P where "P = Max ((\<lambda>x. \<bar>sint x\<bar>) ` set B)"
  have "sint x * sint x \<le> P * P" if "x \<in> set B" for x
  proof -
    from that have "\<bar>sint x\<bar> \<le> P" unfolding P_def by (intro Max_ge) auto
    then have "\<bar>sint x\<bar> * \<bar>sint x\<bar> \<le> P * P" by (intro mult_mono) simp_all
    then show ?thesis by (simp add: abs_mult_self_eq)
  qed
  then have "sum_list (map (\<lambda>x. sint x * sint x) B) \<le> sum_list (map (\<lambda>x. P * P) B)"
    by (intro sum_list_mono) simp
  also have "\<dots> = int (length B) * (P * P)" by (simp add: sum_list_triv)
  finally have "(of_int (sum_list (map (\<lambda>x. sint x * sint x) B)) :: real)
                \<le> of_int (int (length B) * (P * P))"
    by (simp only: of_int_le_iff)
  then have "mean_square B \<le> of_int (int (length B) * (P * P)) / of_nat (length B)"
    unfolding mean_square_def by (intro divide_right_mono) simp_all
  also have "\<dots> = (of_int P)\<^sup>2" using assms by (simp add: power2_eq_square)
  finally show ?thesis by (simp add: calculatePeak_max [OF assms] P_def)
qed


subsection \<open>The claims on RMS and peak\<close>

lemma mean_square_3665: "mean_square [3665, 3665, 3665, 3665, 3665 :: int16] = 13432225"
  by (simp add: mean_square_def)

text \<open>
  C4, as the code has it. For every block \<open>B\<close> of at least one sample (and fewer than
  \<open>2 ^ 24\<close>), \<open>calculateRMS\<close> returns the square root of the mean of the squared samples
  evaluated in \<open>float\<close>, each operation rounded: its square lies within the factors
  \<open>(1 - 2 powi (-24)) ^ (N + 4)\<close> and \<open>(1 + 2 powi (-24)) ^ (N + 4)\<close> of the exact mean
  square. The result is the same for the block with every sample negated, and it is 0 if
  and only if every sample is 0.
\<close>

theorem calculateRMS_rounded:
  assumes "B \<noteq> []" and "length B < 2 ^ 24"
  shows "\<exists>r. calculateRMS B = Some r \<and> 0 \<le> r
           \<and> mean_square B * (1 - unit_roundoff) ^ (length B + 4) \<le> r\<^sup>2
           \<and> r\<^sup>2 \<le> mean_square B * (1 + unit_roundoff) ^ (length B + 4)
           \<and> calculateRMS (map uminus B) = Some r
           \<and> (r = 0 \<longleftrightarrow> (\<forall>x \<in> set B. x = 0))"
proof -
  from assms obtain r where r: "calculateRMS B = Some r" "0 \<le> r"
    and lo: "mean_square B * (1 - unit_roundoff) ^ (length B + 4) \<le> r\<^sup>2"
    and hi: "r\<^sup>2 \<le> mean_square B * (1 + unit_roundoff) ^ (length B + 4)"
    by (rule calculateRMS_bounds)
  have neg: "calculateRMS (map uminus B) = Some r" by (simp add: calculateRMS_neg r)
  have "r = 0 \<longleftrightarrow> mean_square B = 0"
  proof
    assume "r = 0"
    with lo have "mean_square B * (1 - unit_roundoff) ^ (length B + 4) \<le> 0" by simp
    moreover have "0 < (1 - unit_roundoff) ^ (length B + 4)"
      by (intro zero_less_power) (simp add: unit_roundoff_def)
    ultimately have "mean_square B \<le> 0" by (simp add: mult_le_0_iff)
    with mean_square_nonneg [of B] show "mean_square B = 0" by simp
  next
    assume "mean_square B = 0"
    with hi have "r\<^sup>2 \<le> 0" by simp
    then show "r = 0" by simp
  qed
  then have "r = 0 \<longleftrightarrow> (\<forall>x \<in> set B. x = 0)"
    by (simp add: mean_square_zero_iff [OF assms(1)])
  with r lo hi neg show ?thesis by blast
qed

theorem calculateRMS_rounded_witness:
  "[3665, 3665, 3665, 3665, 3665 :: int16] \<noteq> []
   \<and> length [3665, 3665, 3665, 3665, 3665 :: int16] < 2 ^ 24
   \<and> calculateRMS [3665, 3665, 3665, 3665, 3665 :: int16] = Some (3665 + 1 / 4096)
   \<and> 13432225 * (1 - unit_roundoff) ^ 9 \<le> (3665 + 1 / 4096 :: real)\<^sup>2
   \<and> (3665 + 1 / 4096 :: real)\<^sup>2 \<le> 13432225 * (1 + unit_roundoff) ^ 9
   \<and> calculateRMS (map uminus [3665, 3665, 3665, 3665, 3665 :: int16]) = Some (3665 + 1 / 4096)"
proof -
  have a: "[3665, 3665, 3665, 3665, 3665 :: int16] \<noteq> []" by simp
  have b: "length [3665, 3665, 3665, 3665, 3665 :: int16] < 2 ^ 24" by simp
  from calculateRMS_rounded [OF a b] obtain r
    where r: "calculateRMS [3665, 3665, 3665, 3665, 3665 :: int16] = Some r"
      and lo: "mean_square [3665, 3665, 3665, 3665, 3665 :: int16]
               * (1 - unit_roundoff) ^ (length [3665, 3665, 3665, 3665, 3665 :: int16] + 4) \<le> r\<^sup>2"
      and hi: "r\<^sup>2 \<le> mean_square [3665, 3665, 3665, 3665, 3665 :: int16]
               * (1 + unit_roundoff) ^ (length [3665, 3665, 3665, 3665, 3665 :: int16] + 4)"
      and neg: "calculateRMS (map uminus [3665, 3665, 3665, 3665, 3665 :: int16]) = Some r"
    by blast
  from r have v: "r = 3665 + 1 / 4096" by (simp add: calculateRMS_3665)
  from lo hi have "13432225 * (1 - unit_roundoff) ^ 9 \<le> r\<^sup>2"
    "r\<^sup>2 \<le> 13432225 * (1 + unit_roundoff) ^ 9"
    by (simp_all only: mean_square_3665) simp_all
  with a b r neg show ?thesis unfolding v by blast
qed

text \<open>
  C4, as stated, fails in its first part: on five samples of value 3665 the exact root
  mean square is 3665 and the code returns the next \<open>float\<close> above it.
\<close>

theorem calculateRMS_not_exact:
  "calculateRMS [3665, 3665, 3665, 3665, 3665 :: int16]
   \<noteq> Some (sqrt (mean_square [3665, 3665, 3665, 3665, 3665 :: int16]))"
proof -
  have "sqrt (13432225 :: real) = 3665"
    by (rule real_sqrt_unique) (simp_all add: power2_eq_square)
  then show ?thesis by (simp add: calculateRMS_3665 mean_square_3665)
qed

text \<open>
  C9, as the code has it. For every block \<open>B\<close> of at least one sample (and fewer than
  \<open>2 ^ 24\<close>) the peak is the largest absolute sample value, the exact root mean square
  is at most the peak, and the RMS the code computes exceeds the peak by rounding error
  at most: its square is at most the square of the peak times
  \<open>(1 + 2 powi (-24)) ^ (N + 4)\<close>.
\<close>

theorem calculateRMS_peak_rounded:
  assumes "B \<noteq> []" and "length B < 2 ^ 24"
  shows "\<exists>r. calculateRMS B = Some r
           \<and> calculatePeak B = of_int (Max ((\<lambda>x. \<bar>sint x\<bar>) ` set B))
           \<and> sqrt (mean_square B) \<le> calculatePeak B
           \<and> r\<^sup>2 \<le> (calculatePeak B)\<^sup>2 * (1 + unit_roundoff) ^ (length B + 4)
           \<and> r \<le> calculatePeak B * (1 + unit_roundoff) ^ (length B + 4)"
proof -
  define P where "P = calculatePeak B"
  define c where "c = (1 + unit_roundoff) ^ (length B + 4)"
  from assms obtain r where r: "calculateRMS B = Some r" "0 \<le> r"
    and hi: "r\<^sup>2 \<le> mean_square B * c"
    unfolding c_def by (rule calculateRMS_bounds)
  have pm: "P = of_int (Max ((\<lambda>x. \<bar>sint x\<bar>) ` set B))"
    unfolding P_def by (rule calculatePeak_max [OF assms(1)])
  have ms: "mean_square B \<le> P\<^sup>2" unfolding P_def by (rule mean_square_le_peak [OF assms(1)])
  have P0: "0 \<le> P"
  proof -
    from assms(1) obtain x where "x \<in> set B" by (cases B) auto
    then have "\<bar>sint x\<bar> \<le> Max ((\<lambda>x. \<bar>sint x\<bar>) ` set B)" by (intro Max_ge) auto
    then have "0 \<le> Max ((\<lambda>x. \<bar>sint x\<bar>) ` set B)" by linarith
    then show ?thesis by (simp add: pm)
  qed
  have c1: "1 \<le> c" unfolding c_def by (intro one_le_power) (simp add: unit_roundoff_def)
  have "sqrt (mean_square B) \<le> sqrt (P\<^sup>2)" using ms by (simp only: real_sqrt_le_iff)
  then have ex: "sqrt (mean_square B) \<le> P" using P0 by simp
  have "mean_square B * c \<le> P\<^sup>2 * c" using ms c1 by (intro mult_right_mono) simp_all
  with hi have sq: "r\<^sup>2 \<le> P\<^sup>2 * c" by linarith
  have "P\<^sup>2 * c \<le> P\<^sup>2 * (c * c)"
    using c1 by (intro mult_left_mono) (simp_all add: mult_le_cancel_left1)
  also have "\<dots> = (P * c)\<^sup>2" by (simp add: power2_eq_square)
  finally have "r\<^sup>2 \<le> (P * c)\<^sup>2" using sq by linarith
  moreover have "0 \<le> P * c" using P0 c1 by simp
  ultimately have lin: "r \<le> P * c" by (rule power2_le_imp_le)
  from r pm ex sq lin show ?thesis unfolding P_def c_def by blast
qed

theorem calculateRMS_peak_rounded_witness:
  "[3, - 4 :: int16] \<noteq> [] \<and> length [3, - 4 :: int16] < 2 ^ 24
   \<and> calculatePeak [3, - 4 :: int16] = 4
   \<and> (\<exists>r. calculateRMS [3, - 4 :: int16] = Some r \<and> r\<^sup>2 \<le> 4\<^sup>2 * (1 + unit_roundoff) ^ 6)"
proof -
  have a: "[3, - 4 :: int16] \<noteq> []" by simp
  have b: "length [3, - 4 :: int16] < 2 ^ 24" by simp
  have p: "calculatePeak [3, - 4 :: int16] = 4"
    by (simp add: calculatePeak_def Let_def f32_of_int_exact)
  from calculateRMS_peak_rounded [OF a b] obtain r
    where "calculateRMS [3, - 4 :: int16] = Some r"
      and "r\<^sup>2 \<le> (calculatePeak [3, - 4 :: int16])\<^sup>2
                 * (1 + unit_roundoff) ^ (length [3, - 4 :: int16] + 4)"
    by blast
  then have "calculateRMS [3, - 4 :: int16] = Some r \<and> r\<^sup>2 \<le> 4\<^sup>2 * (1 + unit_roundoff) ^ 6"
    by (simp add: p)
  with a b p show ?thesis by blast
qed

text \<open>
  C9, as stated, fails: on five samples of value 3665 the peak is 3665 and the computed
  RMS is \<open>3665 + 1 / 4096\<close>, the next \<open>float\<close> above it.
\<close>

theorem calculateRMS_above_peak:
  "calculateRMS [3665, 3665, 3665, 3665, 3665 :: int16] = Some (3665 + 1 / 4096)
   \<and> calculatePeak [3665, 3665, 3665, 3665, 3665 :: int16] = 3665
   \<and> \<not> (3665 + 1 / 4096 \<le> calculatePeak [3665, 3665, 3665, 3665, 3665 :: int16])"
  by (simp add: calculateRMS_3665 calculatePeak_3665)

section \<open>The low and high energy\<close>

lemma differences_after_length: "length (differences_after prev xs) = length xs"
  by (induction xs arbitrary: prev) simp_all

lemma differences_after_nth:
  "i < length xs \<Longrightarrow>
   differences_after prev xs ! i = \<bar>sint (xs ! i) - sint ((prev # xs) ! i)\<bar>"
proof (induction xs arbitrary: prev i)
  case Nil
  then show ?case by simp
next
  case (Cons x xs)
  then show ?case by (cases i) simp_all
qed

lemma first_differences_Cons: "first_differences (x # xs) = differences_after x xs"
proof (rule nth_equalityI)
  show "length (first_differences (x # xs)) = length (differences_after x xs)"
    by (simp add: first_differences_def differences_after_length del: upt_Suc)
next
  fix i
  assume "i < length (first_differences (x # xs))"
  then have i: "i < length xs" by (simp add: first_differences_def del: upt_Suc)
  then have "first_differences (x # xs) ! i = \<bar>sint (xs ! i) - sint ((x # xs) ! i)\<bar>"
    by (simp add: first_differences_def del: upt_Suc)
  with i show "first_differences (x # xs) ! i = differences_after x xs ! i"
    by (simp add: differences_after_nth)
qed

lemma differences_after_nonneg: "d \<in> set (differences_after prev xs) \<Longrightarrow> 0 \<le> d"
  by (induction xs arbitrary: prev) auto

lemma sum_list_split: "sum_list (filter P ds) + sum_list (filter (\<lambda>d. \<not> P d) ds) = sum_list ds"
  for ds :: "int list"
  by (induction ds) simp_all

lemma freq_loop_exact:
  assumes "0 \<le> l" and "0 \<le> h"
    and "l + h + sum_list (differences_after prev xs) < 2 ^ 24"
  shows "freq_loop (of_int l, of_int h) prev xs
         = (of_int (l + sum_list (filter (\<lambda>d. d < 1000) (differences_after prev xs))),
            of_int (h + sum_list (filter (\<lambda>d. \<not> d < 1000) (differences_after prev xs))))"
  using assms
proof (induction xs arbitrary: l h prev)
  case Nil
  then show ?case by simp
next
  case (Cons x xs)
  define d where "d = \<bar>sint x - sint prev\<bar>"
  have d0: "0 \<le> d" by (simp add: d_def)
  have "0 \<le> sum_list (differences_after x xs)"
    by (rule sum_list_nonneg) (rule differences_after_nonneg)
  with Cons.prems have tot: "l + h + d + sum_list (differences_after x xs) < 2 ^ 24"
    and d24: "d < 2 ^ 24" and ld: "l + d < 2 ^ 24" and hd: "h + d < 2 ^ 24"
    using d0 by (simp_all add: d_def)
  have fd: "f32_of_int d = of_int d" using d0 d24 by (simp add: f32_of_int_exact)
  have k: "f32_of_int 1000 = 1000" by (simp add: f32_of_int_exact)
  show ?case
  proof (cases "d < 1000")
    case True
    then have c: "(of_int d :: real) < 1000" by simp
    have "fl (of_int (l + d)) = of_int (l + d)"
      using Cons.prems(1) d0 ld by (intro fl_int) simp
    then have a: "fadd (of_int l) (of_int d) = of_int (l + d)" by (simp add: fadd_def)
    have "freq_loop (of_int l, of_int h) prev (x # xs) = freq_loop (of_int (l + d), of_int h) x xs"
      using True by (simp add: Let_def d_def [symmetric] fd k a)
    also have "\<dots> = (of_int (l + d + sum_list (filter (\<lambda>d. d < 1000) (differences_after x xs))),
            of_int (h + sum_list (filter (\<lambda>d. \<not> d < 1000) (differences_after x xs))))"
      using Cons.prems(1,2) d0 tot by (intro Cons.IH) simp_all
    finally show ?thesis using True by (simp add: d_def [symmetric] add.assoc)
  next
    case False
    then have c: "\<not> (of_int d :: real) < 1000" by simp
    have "fl (of_int (h + d)) = of_int (h + d)"
      using Cons.prems(2) d0 hd by (intro fl_int) simp
    then have a: "fadd (of_int h) (of_int d) = of_int (h + d)" by (simp add: fadd_def)
    have "freq_loop (of_int l, of_int h) prev (x # xs) = freq_loop (of_int l, of_int (h + d)) x xs"
      using False by (simp add: Let_def d_def [symmetric] fd k a)
    also have "\<dots> = (of_int (l + sum_list (filter (\<lambda>d. d < 1000) (differences_after x xs))),
            of_int (h + d + sum_list (filter (\<lambda>d. \<not> d < 1000) (differences_after x xs))))"
      using Cons.prems(1,2) d0 tot by (intro Cons.IH) simp_all
    finally show ?thesis using False by (simp add: d_def [symmetric] add.assoc)
  qed
qed

lemma fdiv_pow2_exact:
  assumes "\<bar>L\<bar> < 2 ^ 24" and "k \<le> 149"
  shows "fdiv (of_int L) (f32_of_nat (2 ^ k)) = of_int L / 2 ^ k"
proof -
  have "fl (of_int 1 * 2 powi (int k)) = of_int 1 * 2 powi (int k)"
    by (intro fl_exact) simp_all
  then have n: "f32_of_nat (2 ^ k) = 2 ^ k" by (simp add: f32_of_nat_def)
  have "fl (of_int L * 2 powi (- int k)) = of_int L * 2 powi (- int k)"
    using assms by (intro fl_exact) simp_all
  then show ?thesis by (simp add: fdiv_def n power_int_minus_divide)
qed


lemma freq_split:
  assumes "length B = 2 ^ k" and "k < 31" and "sum_list (first_differences B) < 2 ^ 24"
  shows "\<exists>lo hi. calculateFrequencyDistribution B = (Some lo, Some hi)
           \<and> lo * of_nat (length B)
               = of_int (sum_list (filter (\<lambda>d. d < 1000) (first_differences B)))
           \<and> hi * of_nat (length B)
               = of_int (sum_list (filter (\<lambda>d. \<not> d < 1000) (first_differences B)))
           \<and> lo * of_nat (length B) + hi * of_nat (length B)
               = of_int (sum_list (first_differences B))"
proof -
  from assms(1) have "B \<noteq> []" by auto
  then obtain x xs where B: "B = x # xs" by (cases B) auto
  define ds where "ds = differences_after x xs"
  define L where "L = sum_list (filter (\<lambda>d. d < 1000) ds)"
  define H where "H = sum_list (filter (\<lambda>d. \<not> d < 1000) ds)"
  have fd: "first_differences B = ds" by (simp add: B ds_def first_differences_Cons)
  have nn: "\<And>d. d \<in> set ds \<Longrightarrow> 0 \<le> d" unfolding ds_def by (rule differences_after_nonneg)
  have L0: "0 \<le> L" unfolding L_def by (rule sum_list_nonneg) (simp add: nn)
  have H0: "0 \<le> H" unfolding H_def by (rule sum_list_nonneg) (simp add: nn)
  have LH: "L + H = sum_list ds" unfolding L_def H_def by (rule sum_list_split)
  with assms(3) fd have tot: "L + H < 2 ^ 24" by simp
  have "freq_loop (of_int 0, of_int 0) x xs = (of_int (0 + L), of_int (0 + H))"
    unfolding L_def H_def ds_def using assms(3) fd
    by (intro freq_loop_exact) (simp_all add: ds_def)
  then have fl: "freq_loop (0, 0) x xs = (of_int L, of_int H)" by simp
  have k: "k \<le> 149" using assms(2) by simp
  have lo: "fdiv (of_int L) (f32_of_nat (2 ^ k)) = of_int L / 2 ^ k"
    using L0 H0 tot k by (intro fdiv_pow2_exact) simp_all
  have hi: "fdiv (of_int H) (f32_of_nat (2 ^ k)) = of_int H / 2 ^ k"
    using L0 H0 tot k by (intro fdiv_pow2_exact) simp_all
  have len: "length (x # xs) = 2 ^ k" using assms(1) B by simp
  have c: "calculateFrequencyDistribution B = (Some (of_int L / 2 ^ k), Some (of_int H / 2 ^ k))"
    unfolding calculateFrequencyDistribution_def B list.case len fl by (simp add: lo hi)
  have n: "(of_nat (length B) :: real) = 2 ^ k" using assms(1) by simp
  have 1: "of_int L / 2 ^ k * (of_nat (length B) :: real) = of_int L" unfolding n by simp
  have 2: "of_int H / 2 ^ k * (of_nat (length B) :: real) = of_int H" unfolding n by simp
  have 3: "(of_int L :: real) + of_int H = of_int (sum_list ds)" using LH by (simp flip: of_int_add)
  have 4: "of_int L / 2 ^ k * (of_nat (length B) :: real)
           + of_int H / 2 ^ k * of_nat (length B) = of_int (sum_list ds)"
    unfolding 1 2 by (rule 3)
  show ?thesis unfolding fd
    by (rule exI [of _ "of_int L / 2 ^ k"], rule exI [of _ "of_int H / 2 ^ k"])
       (use c 1 2 4 in \<open>simp only: fd L_def H_def simp_thms\<close>)
qed

text \<open>
  C3, as the code has it. Every absolute first difference is added to exactly one of
  the two accumulators, to \<open>lowFreqEnergy\<close> when it is below 1000 and to
  \<open>highFreqEnergy\<close> otherwise, and both are then divided by the block length \<open>N\<close>, all
  in \<open>float\<close>. When \<open>N\<close> is a power of two (as \<open>BUFFER_SIZE\<close> is) and the differences sum
  to less than \<open>2 ^ 24\<close>, no operation rounds: \<open>lowEnergy * N\<close> and \<open>highEnergy * N\<close> are the
  sums of the differences below 1000 and of the others, and together the sum of all
  absolute first differences.
\<close>

theorem energy_split_exact:
  assumes "length B = 2 ^ k" and "k < 31" and "sum_list (first_differences B) < 2 ^ 24"
  shows "\<exists>lo hi. calculateFrequencyDistribution B = (Some lo, Some hi)
           \<and> lo * of_nat (length B)
               = of_int (sum_list (filter (\<lambda>d. d < 1000) (first_differences B)))
           \<and> hi * of_nat (length B)
               = of_int (sum_list (filter (\<lambda>d. \<not> d < 1000) (first_differences B)))
           \<and> lo * of_nat (length B) + hi * of_nat (length B)
               = of_int (sum_list (first_differences B))"
  using assms by (rule freq_split)

theorem energy_split_exact_witness:
  "length [0, 31, 2000, 2000 :: int16] = 2 ^ 2 \<and> (2::nat) < 31
   \<and> sum_list (first_differences [0, 31, 2000, 2000 :: int16]) < 2 ^ 24
   \<and> first_differences [0, 31, 2000, 2000 :: int16] = [31, 1969, 0]
   \<and> (\<exists>lo hi. calculateFrequencyDistribution [0, 31, 2000, 2000 :: int16] = (Some lo, Some hi)
          \<and> lo * 4 = 31 \<and> hi * 4 = 1969 \<and> lo * 4 + hi * 4 = 2000)"
proof -
  have d: "first_differences [0, 31, 2000, 2000 :: int16] = [31, 1969, 0]"
    by (simp add: first_differences_Cons)
  have a: "length [0, 31, 2000, 2000 :: int16] = 2 ^ 2" by simp
  have b: "(2::nat) < 31" by simp
  have c: "sum_list (first_differences [0, 31, 2000, 2000 :: int16]) < 2 ^ 24"
    unfolding d by simp
  from energy_split_exact [OF a b c]
  have "\<exists>lo hi. calculateFrequencyDistribution [0, 31, 2000, 2000 :: int16] = (Some lo, Some hi)
          \<and> lo * 4 = 31 \<and> hi * 4 = 1969 \<and> lo * 4 + hi * 4 = 2000"
    unfolding d by simp
  with a b c d show ?thesis by blast
qed

text \<open>
  C3, as stated, fails: the division by the block length rounds. On the seven samples
  0, 31, 31, 31, 31, 31, 31 the differences sum to 31, \<open>lowEnergy\<close> is the \<open>float\<close> nearest
  to \<open>31 / 7\<close>, and seven times that is not 31, neither in exact arithmetic nor when the
  product is again rounded to \<open>float\<close>.
\<close>

theorem energy_split_rounded:
  "calculateFrequencyDistribution [0, 31, 31, 31, 31, 31, 31 :: int16]
     = (Some (9287387 / 2097152), Some 0)
   \<and> sum_list (first_differences [0, 31, 31, 31, 31, 31, 31 :: int16]) = 31
   \<and> (9287387 / 2097152 :: real) * 7 + 0 * 7 \<noteq> 31
   \<and> fadd (fmul (9287387 / 2097152) (f32_of_nat 7)) (fmul 0 (f32_of_nat 7)) \<noteq> 31"
proof -
  have d: "first_differences [0, 31, 31, 31, 31, 31, 31 :: int16] = [31, 0, 0, 0, 0, 0]"
    by (simp add: first_differences_Cons)
  have "freq_loop (of_int 0, of_int 0) (0 :: int16) [31, 31, 31, 31, 31, 31]
        = (of_int (0 + sum_list (filter (\<lambda>d. d < 1000)
                     (differences_after 0 [31, 31, 31, 31, 31, 31 :: int16]))),
           of_int (0 + sum_list (filter (\<lambda>d. \<not> d < 1000)
                     (differences_after 0 [31, 31, 31, 31, 31, 31 :: int16]))))"
    by (intro freq_loop_exact) simp_all
  then have fr: "freq_loop (0, 0) (0 :: int16) [31, 31, 31, 31, 31, 31] = (31, 0)" by simp
  have n: "f32_of_nat 7 = 7" using f32_of_nat_exact [of 7] by simp
  have lo: "fdiv 31 7 = 9287387 / 2097152"
    using fl_eqI [of 2 "31 / 7" 9287387] by (simp add: fdiv_def power_int_minus_divide)
  have hi: "fdiv 0 7 = 0" by (simp add: fdiv_def fl_0)
  have len: "length [0, 31, 31, 31, 31, 31, 31 :: int16] = 7" by simp
  have c: "calculateFrequencyDistribution [0, 31, 31, 31, 31, 31, 31 :: int16]
           = (Some (9287387 / 2097152), Some 0)"
    unfolding calculateFrequencyDistribution_def list.case len fr n by (simp add: lo hi)
  have m: "fmul (9287387 / 2097152) 7 = 16252927 / 524288"
    using fl_eqI [of 4 "65011709 / 2097152" 16252927]
    by (simp add: fmul_def power_int_minus_divide)
  have z: "fmul 0 7 = 0" by (simp add: fmul_def fl_0)
  have "fl (of_int 16252927 * 2 powi (- 19)) = of_int 16252927 * 2 powi (- 19)"
    by (intro fl_exact) simp_all
  then have s: "fadd (16252927 / 524288) 0 = 16252927 / 524288"
    by (simp add: fadd_def power_int_minus_divide)
  show ?thesis unfolding n m z s by (simp add: c d)
qed


text \<open>
  The blocks \<open>loop\<close> analyses meet the two conditions: they have \<open>BUFFER_SIZE\<close> = \<open>2 ^ 9\<close>
  samples, and a filter step moves the output by at most 16384.
\<close>

lemma blend_step_bound:
  assumes "- 32768 \<le> a" "a < 32768" "- 32768 \<le> b" "b < 32768"
  shows "\<bar>blend a b - b\<bar> \<le> 16384"
proof (cases "0 \<le> a + 3 * b")
  case True
  define q where "q = (a + 3 * b) div 4"
  have "a + 3 * b = 4 * q + (a + 3 * b) mod 4" by (simp add: q_def)
  moreover have "0 \<le> (a + 3 * b) mod 4" "(a + 3 * b) mod 4 < 4" by simp_all
  ultimately have "4 * q \<le> a + 3 * b" "a + 3 * b < 4 * q + 4" by linarith+
  moreover have "blend a b = q" using True by (simp add: blend_def q_def)
  ultimately show ?thesis using assms by linarith
next
  case False
  define q where "q = (- (a + 3 * b)) div 4"
  have "- (a + 3 * b) = 4 * q + (- (a + 3 * b)) mod 4" by (simp add: q_def)
  moreover have "0 \<le> (- (a + 3 * b)) mod 4" "(- (a + 3 * b)) mod 4 < 4" by simp_all
  ultimately have "4 * q \<le> - (a + 3 * b)" "- (a + 3 * b) < 4 * q + 4" by linarith+
  moreover have "blend a b = - q" using False by (simp add: blend_def q_def)
  ultimately show ?thesis using assms by linarith
qed

lemma filtered_differences_bound:
  "sum_list (differences_after prev (iir_loop (1 / 4) prev xs)) \<le> 16384 * int (length xs)"
proof (induction xs arbitrary: prev)
  case Nil
  then show ?case by simp
next
  case (Cons x xs)
  define y where "y = to_int16 (fadd (fmul (1 / 4) (f32_of_int (sint x)))
                             (fmul (fsub 1 (1 / 4)) (f32_of_int (sint prev))))"
  have "sint y = blend (sint x) (sint prev)" unfolding y_def by (rule iir_step)
  then have "\<bar>sint y - sint prev\<bar> \<le> 16384"
    using blend_step_bound [of "sint x" "sint prev"] sint16_range [of x] sint16_range [of prev]
    by simp
  moreover have "sum_list (differences_after y (iir_loop (1 / 4) y xs)) \<le> 16384 * int (length xs)"
    by (rule Cons.IH)
  ultimately show ?case by (simp add: Let_def y_def [symmetric])
qed

lemma filtered_block_energy_exact:
  assumes "iirLowPassFilter B (1 / 4) = Some F" and "length B = BUFFER_SIZE"
  shows "\<exists>lo hi. calculateFrequencyDistribution F = (Some lo, Some hi)
           \<and> lo * 512 + hi * 512 = of_int (sum_list (first_differences F))"
proof -
  from assms(2) obtain x xs where B: "B = x # xs" and lx: "length xs = 511"
    by (cases B) (auto simp: BUFFER_SIZE_def)
  from assms(1) have F: "F = x # iir_loop (1 / 4) x xs" by (simp add: iirLowPassFilter_def B)
  have len: "length F = 2 ^ 9" by (simp add: F iir_loop_length lx)
  have "sum_list (first_differences F) \<le> 16384 * int (length xs)"
    unfolding F first_differences_Cons by (rule filtered_differences_bound)
  then have tot: "sum_list (first_differences F) < 2 ^ 24" by (simp add: lx)
  have k: "(9::nat) < 31" by simp
  have "\<exists>lo hi. calculateFrequencyDistribution F = (Some lo, Some hi)
           \<and> lo * of_nat (length F) + hi * of_nat (length F)
               = of_int (sum_list (first_differences F))"
    using freq_split [OF len k tot] by blast
  then show ?thesis by (simp add: len)
qed

section \<open>A full block whose RMS is rounded above its peak\<close>

lemma rms_sum_append: "rms_sum s (xs @ ys) = rms_sum (rms_sum s xs) ys"
  by (induction xs arbitrary: s) simp_all

lemma rne_half: "rne (of_int f + 1 / 2) = (if even f then f else f + 1)"
proof -
  have "\<lfloor>(of_int f :: real) + 1 / 2\<rfloor> = f" by linarith
  then show ?thesis by (simp add: rne_def Let_def)
qed

lemma fl_eval:
  assumes "2 powi e \<le> \<bar>x\<bar>" and "\<bar>x\<bar> < 2 powi (e + 1)" and "- 126 \<le> e"
  shows "fl x = of_int (rne (x * 2 powi (23 - e))) * 2 powi (e - 23)"
proof -
  have "expo x = e" using assms(1,2) by (rule expo_unique)
  then have "max (expo x) (- 126) = e" using assms(3) by simp
  then show ?thesis by (simp add: fl_def Let_def)
qed

text \<open>
  Adding an integer \<open>c\<close> to an integer sum \<open>s\<close> with the result in the binade whose
  \<open>float\<close> values are the multiples of \<open>2 ^ k\<close>: the result is the multiple of \<open>2 ^ k\<close>
  nearest to \<open>s + c\<close>; halfway between two multiples it is the even one.
\<close>

lemma binade_bounds:
  fixes X :: int
  assumes "2 ^ (23 + k) \<le> X" and "X < 2 ^ (24 + k)"
  shows "2 powi (23 + int k) \<le> \<bar>(of_int X :: real)\<bar>"
    and "\<bar>(of_int X :: real)\<bar> < 2 powi (23 + int k + 1)"
proof -
  have "(0::int) \<le> 2 ^ (23 + k)" by simp
  with assms(1) have X0: "0 \<le> X" by linarith
  then have x0: "\<bar>(of_int X :: real)\<bar> = of_int X" by simp
  have e1: "(2::real) powi (23 + int k) = of_int (2 ^ (23 + k))"
    by (simp add: power_int_add power_add)
  have e2: "(2::real) powi (23 + int k + 1) = of_int (2 ^ (24 + k))"
    by (simp add: power_int_add power_add)
  show "2 powi (23 + int k) \<le> \<bar>(of_int X :: real)\<bar>"
    unfolding x0 e1 using assms(1) by (simp only: of_int_le_iff)
  show "\<bar>(of_int X :: real)\<bar> < 2 powi (23 + int k + 1)"
    unfolding x0 e2 using assms(2) by (simp only: of_int_less_iff)
qed

lemma fadd_in_binade:
  fixes s c m :: int
  assumes "\<bar>s + c - 2 ^ k * m\<bar> * 2 < 2 ^ k"
    and "2 ^ (23 + k) \<le> s + c" and "s + c < 2 ^ (24 + k)"
  shows "fadd (of_int s) (of_int c) = of_int (2 ^ k * m)"
proof -
  define X where "X = s + c"
  define x :: real where "x = of_int X"
  have lo: "2 powi (23 + int k) \<le> \<bar>x\<bar>" and hi: "\<bar>x\<bar> < 2 powi (23 + int k + 1)"
    unfolding x_def using assms(2,3) unfolding X_def [symmetric] by (rule binade_bounds)+
  have w: "x * 2 powi (23 - (23 + int k)) - of_int m = of_int (X - 2 ^ k * m) / 2 ^ k"
    by (simp add: x_def power_int_minus_divide field_simps)
  have "(of_int (\<bar>X - 2 ^ k * m\<bar> * 2) :: real) < of_int (2 ^ k)"
    using assms(1) unfolding X_def [symmetric] by (simp only: of_int_less_iff)
  then have "\<bar>(of_int (X - 2 ^ k * m) :: real)\<bar> * 2 < 2 ^ k" by simp
  then have "\<bar>(of_int (X - 2 ^ k * m) :: real) / 2 ^ k\<bar> < 1 / 2"
    by (simp add: field_simps abs_mult)
  then have cl: "\<bar>x * 2 powi (23 - (23 + int k)) - of_int m\<bar> < 1 / 2"
    by (simp only: w)
  have "fl x = of_int m * 2 powi (23 + int k - 23)"
    using lo hi _ cl by (rule fl_eqI) simp
  then have "fl (of_int (s + c)) = of_int (2 ^ k * m)"
    by (simp add: x_def X_def)
  then show ?thesis unfolding fadd_def by (simp only: of_int_add)
qed

lemma fadd_tie:
  fixes n i :: int
  assumes "even (n + i)"
    and "2 ^ 24 \<le> 2 * n + (2 * i + 1)" and "2 * n + (2 * i + 1) < 2 ^ 25"
  shows "fadd (of_int (2 * n)) (of_int (2 * i + 1)) = of_int (2 * (n + i))"
proof -
  define X where "X = 2 * n + (2 * i + 1)"
  have b: "2 ^ (23 + 1) \<le> X" "X < 2 ^ (24 + 1)" using assms(2,3) by (simp_all add: X_def)
  have lo: "2 powi 24 \<le> \<bar>(of_int X :: real)\<bar>" and hi: "\<bar>(of_int X :: real)\<bar> < 2 powi (24 + 1)"
    using binade_bounds [OF b] by simp_all
  have "fl (of_int X) = of_int (rne (of_int X * 2 powi (23 - 24))) * 2 powi (24 - 23)"
    using lo hi by (rule fl_eval) simp
  moreover have w: "(of_int X :: real) * 2 powi (23 - 24) = of_int (n + i) + 1 / 2"
    by (simp add: X_def power_int_minus_divide field_simps)
  moreover have "rne (of_int (n + i) + 1 / 2) = n + i"
    using assms(1) by (simp only: rne_half if_True)
  ultimately have "fl (of_int X) = of_int (n + i) * 2 powi (24 - 23)" by (simp only:)
  then have "fl (of_int X) = of_int (2 * (n + i))" by simp
  then show ?thesis unfolding fadd_def X_def by (simp only: of_int_add)
qed

text \<open>The sum of squares over a run of equal samples, in three kinds of stretches.\<close>

lemma rms_sum_exact_run:
  fixes s c :: int and x :: int16
  assumes q: "f32_of_int (sint x * sint x) = of_int c"
    and "0 \<le> s" and "0 \<le> c" and "s + int m * c < 2 ^ 24"
  shows "rms_sum (of_int s) (replicate m x) = of_int (s + int m * c)"
  using assms(2,4)
proof (induction m arbitrary: s)
  case 0
  then show ?case by simp
next
  case (Suc m)
  have "(0::int) \<le> int m * c" using assms(3) by simp
  with Suc.prems have b: "s + c < 2 ^ 24" by (simp add: algebra_simps)
  have "fl (of_int (s + c)) = of_int (s + c)"
    using Suc.prems(1) assms(3) b by (intro fl_int) simp
  then have step: "fadd (of_int s) (of_int c) = of_int (s + c)"
    unfolding fadd_def by (simp only: of_int_add)
  have "rms_sum (of_int s) (replicate (Suc m) x) = rms_sum (of_int (s + c)) (replicate m x)"
    by (simp only: replicate_Suc rms_sum.simps q step)
  also have "\<dots> = of_int (s + c + int m * c)"
    using Suc.prems assms(3) by (intro Suc.IH) (simp_all add: algebra_simps)
  finally show ?case by (simp add: algebra_simps)
qed

lemma rms_sum_tie_run:
  fixes n i :: int and x :: int16
  assumes q: "f32_of_int (sint x * sint x) = of_int (2 * i + 1)"
    and "even n" and "even i" and "0 \<le> i"
    and "2 ^ 24 \<le> 2 * n + (2 * i + 1)"
    and "2 * (n + (int m - 1) * i) + (2 * i + 1) < 2 ^ 25"
  shows "rms_sum (of_int (2 * n)) (replicate m x) = of_int (2 * (n + int m * i))"
  using assms(2,5,6)
proof (induction m arbitrary: n)
  case 0
  then show ?case by simp
next
  case (Suc m)
  have p: "(0::int) \<le> 2 * (int m * i)" using assms(4) by simp
  with Suc.prems(3) have h1: "2 * n + (2 * i + 1) < 2 ^ 25" by (simp add: algebra_simps)
  have ev: "even (n + i)" using Suc.prems(1) assms(3) by simp
  have step: "fadd (of_int (2 * n)) (of_int (2 * i + 1)) = of_int (2 * (n + i))"
    using ev Suc.prems(2) h1 by (rule fadd_tie)
  have lo': "2 ^ 24 \<le> 2 * (n + i) + (2 * i + 1)"
    using Suc.prems(2) assms(4) by (simp add: algebra_simps)
  have hi': "2 * (n + i + (int m - 1) * i) + (2 * i + 1) < 2 ^ 25"
    using Suc.prems(3) by (simp add: algebra_simps)
  have "rms_sum (of_int (2 * n)) (replicate (Suc m) x)
        = rms_sum (of_int (2 * (n + i))) (replicate m x)"
    by (simp only: replicate_Suc rms_sum.simps q step)
  also have "\<dots> = of_int (2 * (n + i + int m * i))" using ev lo' hi' by (rule Suc.IH)
  finally show ?case by (simp add: algebra_simps)
qed

lemma rms_sum_in_binade:
  fixes n i c :: int and x :: int16
  assumes q: "f32_of_int (sint x * sint x) = of_int c"
    and near: "\<bar>c - 2 ^ k * i\<bar> * 2 < 2 ^ k" and i: "0 \<le> i"
    and lo: "2 ^ (23 + k) \<le> 2 ^ k * n + c"
    and hi: "2 ^ k * (n + (int m - 1) * i) + c < 2 ^ (24 + k)"
  shows "rms_sum (of_int (2 ^ k * n)) (replicate m x) = of_int (2 ^ k * (n + int m * i))"
  using lo hi
proof (induction m arbitrary: n)
  case 0
  then show ?case by simp
next
  case (Suc m)
  have p: "(0::int) \<le> 2 ^ k * (int m * i)" using i by simp
  have "2 ^ k * n + c \<le> 2 ^ k * (n + (int (Suc m) - 1) * i) + c" using p
    by (simp add: algebra_simps)
  with Suc.prems(2) have h1: "2 ^ k * n + c < 2 ^ (24 + k)" by linarith
  have eq: "2 ^ k * n + c - 2 ^ k * (n + i) = c - 2 ^ k * i" by (simp add: algebra_simps)
  have near': "\<bar>2 ^ k * n + c - 2 ^ k * (n + i)\<bar> * 2 < 2 ^ k" unfolding eq by (rule near)
  have step: "fadd (of_int (2 ^ k * n)) (of_int c) = of_int (2 ^ k * (n + i))"
    using near' Suc.prems(1) h1 by (rule fadd_in_binade)
  have lo': "2 ^ (23 + k) \<le> 2 ^ k * (n + i) + c"
  proof -
    have "(0::int) \<le> 2 ^ k * i" using i by simp
    then show ?thesis using Suc.prems(1) by (simp add: algebra_simps)
  qed
  have hi': "2 ^ k * (n + i + (int m - 1) * i) + c < 2 ^ (24 + k)"
    using Suc.prems(2) by (simp add: algebra_simps)
  have "rms_sum (of_int (2 ^ k * n)) (replicate (Suc m) x)
        = rms_sum (of_int (2 ^ k * (n + i))) (replicate m x)"
    by (simp only: replicate_Suc rms_sum.simps q step)
  also have "\<dots> = of_int (2 ^ k * (n + i + int m * i))" using lo' hi' by (rule Suc.IH)
  finally show ?case by (simp add: algebra_simps)
qed

text \<open>
  A block of \<open>BUFFER_SIZE\<close> samples of value 547. The squares 299209 add up exactly for
  56 steps; the next 56 sums are ties between two even numbers and gain 299208 each;
  112 sums round to multiples of 4 and 224 to multiples of 8, gaining 299208 each; one
  sum rounds down to a multiple of 16 and the last 63 gain 299216 each.
\<close>

lemma rms_sum_547: "rms_sum 0 (replicate 512 (547 :: int16)) = 153195056"
proof -
  have q: "f32_of_int (sint (547 :: int16) * sint (547 :: int16)) = of_int 299209"
    by (simp add: f32_of_int_exact)
  have "replicate (56 + (56 + (112 + (224 + (1 + 63))))) (547 :: int16)
      = replicate 56 547 @ replicate 56 547 @ replicate 112 547 @ replicate 224 547
        @ replicate 1 547 @ replicate 63 547"
    by (simp only: replicate_add)
  then have split: "replicate 512 (547 :: int16)
      = replicate 56 547 @ replicate 56 547 @ replicate 112 547 @ replicate 224 547
        @ replicate 1 547 @ replicate 63 547"
    by simp
  have 1: "rms_sum (of_int 0) (replicate 56 (547 :: int16)) = of_int (0 + int 56 * 299209)"
    using q by (rule rms_sum_exact_run) simp_all
  have q2: "f32_of_int (sint (547 :: int16) * sint (547 :: int16)) = of_int (2 * 149604 + 1)"
    using q by simp
  have 2: "rms_sum (of_int (2 * 8377852)) (replicate 56 (547 :: int16))
           = of_int (2 * (8377852 + int 56 * 149604))"
    using q2 by (rule rms_sum_tie_run) simp_all
  have 3: "rms_sum (of_int (2 ^ 2 * 8377838)) (replicate 112 (547 :: int16))
           = of_int (2 ^ 2 * (8377838 + int 112 * 74802))"
    using q by (rule rms_sum_in_binade) simp_all
  have 4: "rms_sum (of_int (2 ^ 3 * 8377831)) (replicate 224 (547 :: int16))
           = of_int (2 ^ 3 * (8377831 + int 224 * 37401))"
    using q by (rule rms_sum_in_binade) simp_all
  have "fadd (of_int 134045240) (of_int 299209) = of_int (2 ^ 4 * 8396528)"
    by (rule fadd_in_binade) simp_all
  then have 5: "rms_sum 134045240 (replicate 1 (547 :: int16)) = 134344448"
    using q by simp
  have 6: "rms_sum (of_int (2 ^ 4 * 8396528)) (replicate 63 (547 :: int16))
           = of_int (2 ^ 4 * (8396528 + int 63 * 18701))"
    using q by (rule rms_sum_in_binade) simp_all
  from 1 have 1: "rms_sum 0 (replicate 56 (547 :: int16)) = 16755704" by simp
  from 2 have 2: "rms_sum 16755704 (replicate 56 (547 :: int16)) = 33511352" by simp
  from 3 have 3: "rms_sum 33511352 (replicate 112 (547 :: int16)) = 67022648" by simp
  from 4 have 4: "rms_sum 67022648 (replicate 224 (547 :: int16)) = 134045240" by simp
  from 6 have 6: "rms_sum 134344448 (replicate 63 (547 :: int16)) = 153195056" by simp
  show ?thesis unfolding split rms_sum_append 1 2 3 4 5 6 ..
qed


lemma calculateRMS_547:
  "calculateRMS (replicate 512 (547 :: int16)) = Some (547 + 1 / 16384)"
proof -
  have n: "f32_of_nat 512 = 512" using f32_of_nat_exact [of 512] by simp
  have "fl (of_int 9574691 * 2 powi (- 5)) = of_int 9574691 * 2 powi (- 5)"
    by (intro fl_exact) simp_all
  then have y: "fdiv 153195056 512 = 9574691 / 32"
    by (simp add: fdiv_def power_int_minus_divide)
  have lo: "(512::real) \<le> sqrt (9574691 / 32)" by (rule real_le_rsqrt) simp
  have hi: "sqrt (9574691 / 32) < (1024::real)" by (rule real_less_lsqrt) simp_all
  have a: "(17924097 / 32768 :: real) < sqrt (9574691 / 32)"
    by (rule real_less_rsqrt) (simp add: power2_eq_square)
  have b: "sqrt (9574691 / 32) < (17924099 / 32768 :: real)"
    by (rule real_less_lsqrt) (simp_all add: power2_eq_square)
  have "fl (sqrt (9574691 / 32)) = of_int 8962049 * 2 powi (9 - 23)"
  proof (rule fl_eqI)
    show "2 powi 9 \<le> \<bar>sqrt (9574691 / 32)\<bar>" using lo by simp
    show "\<bar>sqrt (9574691 / 32)\<bar> < 2 powi (9 + 1)" using hi by simp
    show "- 126 \<le> (9::int)" by simp
    have "- (1 / 2) < sqrt (9574691 / 32) * 16384 - 8962049"
      "sqrt (9574691 / 32) * 16384 - 8962049 < 1 / 2"
      using a b by simp_all
    then show "\<bar>sqrt (9574691 / 32) * 2 powi (23 - 9) - of_int 8962049\<bar> < 1 / 2"
      unfolding abs_less_iff by simp
  qed
  then have r: "fsqrt (9574691 / 32) = 547 + 1 / 16384"
    by (simp add: fsqrt_def power_int_minus_divide)
  have ne: "replicate 512 (547 :: int16) \<noteq> []" by simp
  have len: "length (replicate 512 (547 :: int16)) = 512" by simp
  show ?thesis unfolding calculateRMS_def rms_sum_547 len n y r using ne by simp
qed

lemma calculatePeak_547: "calculatePeak (replicate 512 (547 :: int16)) = 547"
proof -
  have ne: "replicate 512 (547 :: int16) \<noteq> []" by simp
  have "(\<lambda>x. \<bar>sint x\<bar>) ` set (replicate 512 (547 :: int16)) = {547}" by simp
  then show ?thesis by (simp add: calculatePeak_max [OF ne])
qed

lemma blend_same: "blend a a = a"
proof -
  have "(a + 3 * a) div 4 = a" by simp
  moreover have "(- (a + 3 * a)) div 4 = - a"
  proof -
    have "- (a + 3 * a) = (- a) * 4" by simp
    then show ?thesis by (simp only: nonzero_mult_div_cancel_right)
  qed
  ultimately show ?thesis unfolding blend_def by simp
qed

lemma iir_loop_constant: "iir_loop (1 / 4) x (replicate n x) = replicate n x"
proof (induction n)
  case 0
  show ?case by simp
next
  case (Suc n)
  have "sint (to_int16 (fadd (fmul (1 / 4) (f32_of_int (sint x)))
                   (fmul (fsub 1 (1 / 4)) (f32_of_int (sint x))))) = sint x"
    by (simp only: iir_step blend_same)
  then have "to_int16 (fadd (fmul (1 / 4) (f32_of_int (sint x)))
                   (fmul (fsub 1 (1 / 4)) (f32_of_int (sint x)))) = x"
    by (rule signed_word_eqI)
  then show ?case using Suc by (simp add: Let_def)
qed

lemma iirLowPassFilter_constant:
  "iirLowPassFilter (replicate (Suc n) x) (1 / 4) = Some (replicate (Suc n) x)"
  by (simp add: iirLowPassFilter_def iir_loop_constant)

lemma samples_of_bytes_pairs:
  "samples_of_bytes (concat (replicate n [b0, b1])) = replicate n (word_cat b1 b0)"
  by (induction n) simp_all

text \<open>
  Through the whole of \<open>loop\<close>: a full read of samples of value 547 leaves an RMS above
  the peak in the globals.
\<close>

lemma loop_constant_input:
  "\<exists>g' es. loop initial_globals constant_input = Some (g', es)
           \<and> currentRMS g' = Some (547 + 1 / 16384) \<and> currentPeak g' = Some 547"
proof -
  have ok: "i2s_status (i2s constant_input) = ESP_OK"
    by (simp add: constant_input_def ESP_OK_def)
  have "length (concat (replicate n [b0, b1])) = 2 * n" for n and b0 b1 :: "8 word"
    by (induction n) simp_all
  then have len: "length (i2s_bytes (i2s constant_input)) = 1024"
    by (simp add: constant_input_def)
  then have tk: "take (BUFFER_SIZE * 2) (i2s_bytes (i2s constant_input))
                 = i2s_bytes (i2s constant_input)"
    by (simp add: BUFFER_SIZE_def)
  have rb: "read_block (i2s constant_input)
            = (ESP_OK, 1024, Some (i2s_bytes (i2s constant_input)))"
    using read_block_buffer [of "i2s constant_input"] ok
    by (simp add: tk len BUFFER_SIZE_def)
  have w: "word_cat (0x02 :: 8 word) (0x23 :: 8 word) = (547 :: int16)"
    by (simp add: word_cat_eq)
  have sm: "samples_of_bytes (i2s_bytes (i2s constant_input)) = replicate 512 547"
    by (simp add: constant_input_def samples_of_bytes_pairs w)
  have "replicate 512 (547 :: int16) = replicate (Suc 511) 547" by simp
  then have fi: "iirLowPassFilter (replicate 512 (547 :: int16)) (1 / 4)
                 = Some (replicate 512 547)"
    by (simp only: iirLowPassFilter_constant)
  have "loop initial_globals constant_input
        = Some (analyse (replicate 512 547)
                  (fst (ws_loop initial_globals (ws_events constant_input))),
                snd (ws_loop initial_globals (ws_events constant_input))
                @ [Serial_print ''Bytes read: '', Serial_print_num 1024]
                @ publish (analyse (replicate 512 547)
                    (fst (ws_loop initial_globals (ws_events constant_input))))
                    (replicate 512 547)
                @ [Delay dataInterval])"
    by (simp add: loop_def rb sm fi ESP_OK_def BUFFER_SIZE_def split_beta Let_def)
  then show ?thesis
    by (simp add: analyse_features calculateRMS_547 calculatePeak_547)
qed

section \<open>A full block whose energy sum is rounded\<close>

lemma freq_loop_fold:
  "freq_loop (lo, hi) prev xs
   = fold (\<lambda>d (l, h). if f32_of_int d < f32_of_int 1000 then (fadd l (f32_of_int d), h)
                       else (l, fadd h (f32_of_int d)))
       (differences_after prev xs) (lo, hi)"
  by (induction xs arbitrary: lo hi prev) (simp_all add: Let_def)

lemma fold_high_run:
  assumes "\<not> f32_of_int d < f32_of_int 1000"
  shows "fold (\<lambda>d (l, h). if f32_of_int d < f32_of_int 1000 then (fadd l (f32_of_int d), h)
                       else (l, fadd h (f32_of_int d)))
           (replicate m d) (lo, hi)
         = (lo, ((\<lambda>h. fadd h (f32_of_int d)) ^^ m) hi)"
proof -
  have "((\<lambda>(l, h). (l, fadd h (f32_of_int d))) ^^ m) (lo, hi)
        = (lo, ((\<lambda>h. fadd h (f32_of_int d)) ^^ m) hi)"
    by (induction m) simp_all
  then show ?thesis using assms by (simp add: fold_replicate)
qed

lemma fadd_exact_run:
  fixes s c :: int
  assumes "0 \<le> s" and "0 \<le> c" and "s + int m * c < 2 ^ 24"
  shows "((\<lambda>h. fadd h (of_int c)) ^^ m) (of_int s) = of_int (s + int m * c)"
  using assms(1,3)
proof (induction m arbitrary: s)
  case 0
  then show ?case by simp
next
  case (Suc m)
  have "(0::int) \<le> int m * c" using assms(2) by simp
  with Suc.prems have b: "s + c < 2 ^ 24" by (simp add: algebra_simps)
  have "fl (of_int (s + c)) = of_int (s + c)"
    using Suc.prems(1) assms(2) b by (intro fl_int) simp
  then have step: "fadd (of_int s) (of_int c) = of_int (s + c)"
    unfolding fadd_def by (simp only: of_int_add)
  have "((\<lambda>h. fadd h (of_int c)) ^^ Suc m) (of_int s)
        = ((\<lambda>h. fadd h (of_int c)) ^^ m) (of_int (s + c))"
    by (simp only: funpow_Suc_right o_apply step)
  also have "\<dots> = of_int (s + c + int m * c)"
    using Suc.prems assms(2) by (intro Suc.IH) (simp_all add: algebra_simps)
  finally show ?case by (simp add: algebra_simps)
qed

lemma fadd_tie_up:
  fixes n i :: int
  assumes "odd (n + i)"
    and "2 ^ 24 \<le> 2 * n + (2 * i + 1)" and "2 * n + (2 * i + 1) < 2 ^ 25"
  shows "fadd (of_int (2 * n)) (of_int (2 * i + 1)) = of_int (2 * (n + i + 1))"
proof -
  define X where "X = 2 * n + (2 * i + 1)"
  have b: "2 ^ (23 + 1) \<le> X" "X < 2 ^ (24 + 1)" using assms(2,3) by (simp_all add: X_def)
  have lo: "2 powi 24 \<le> \<bar>(of_int X :: real)\<bar>" and hi: "\<bar>(of_int X :: real)\<bar> < 2 powi (24 + 1)"
    using binade_bounds [OF b] by simp_all
  have "fl (of_int X) = of_int (rne (of_int X * 2 powi (23 - 24))) * 2 powi (24 - 23)"
    using lo hi by (rule fl_eval) simp
  moreover have w: "(of_int X :: real) * 2 powi (23 - 24) = of_int (n + i) + 1 / 2"
    by (simp add: X_def power_int_minus_divide field_simps)
  moreover have "rne (of_int (n + i) + 1 / 2) = n + i + 1"
    using assms(1) by (simp only: rne_half if_False)
  ultimately have "fl (of_int X) = of_int (n + i + 1) * 2 powi (24 - 23)" by (simp only:)
  then have "fl (of_int X) = of_int (2 * (n + i + 1))" by simp
  then show ?thesis unfolding fadd_def X_def by (simp only: of_int_add)
qed

lemma fadd_tie_up_run:
  fixes n i :: int
  assumes "even n" and "odd i" and "0 \<le> i"
    and "2 ^ 24 \<le> 2 * n + (2 * i + 1)"
    and "2 * (n + (int m - 1) * (i + 1)) + (2 * i + 1) < 2 ^ 25"
  shows "((\<lambda>h. fadd h (of_int (2 * i + 1))) ^^ m) (of_int (2 * n))
         = of_int (2 * (n + int m * (i + 1)))"
  using assms(1,4,5)
proof (induction m arbitrary: n)
  case 0
  then show ?case by simp
next
  case (Suc m)
  have p: "(0::int) \<le> 2 * (int m * (i + 1))" using assms(3) by simp
  with Suc.prems(3) have h1: "2 * n + (2 * i + 1) < 2 ^ 25" by (simp add: algebra_simps)
  have od: "odd (n + i)" using Suc.prems(1) assms(2) by simp
  have step: "fadd (of_int (2 * n)) (of_int (2 * i + 1)) = of_int (2 * (n + i + 1))"
    using od Suc.prems(2) h1 by (rule fadd_tie_up)
  have ev: "even (n + i + 1)" using od by simp
  have lo': "2 ^ 24 \<le> 2 * (n + i + 1) + (2 * i + 1)"
    using Suc.prems(2) assms(3) by (simp add: algebra_simps)
  have hi': "2 * (n + i + 1 + (int m - 1) * (i + 1)) + (2 * i + 1) < 2 ^ 25"
    using Suc.prems(3) by (simp add: algebra_simps)
  have "((\<lambda>h. fadd h (of_int (2 * i + 1))) ^^ Suc m) (of_int (2 * n))
        = ((\<lambda>h. fadd h (of_int (2 * i + 1))) ^^ m) (of_int (2 * (n + i + 1)))"
    by (simp only: funpow_Suc_right o_apply step)
  also have "\<dots> = of_int (2 * (n + i + 1 + int m * (i + 1)))"
    using ev lo' hi' by (rule Suc.IH)
  finally show ?case by (simp add: algebra_simps)
qed

lemma differences_after_alternating:
  "differences_after (- 32768) (concat (replicate n [32767, - 32768 :: int16]))
   = replicate (2 * n) 65535"
  by (induction n) simp_all

lemma first_differences_alternating:
  "first_differences alternating_block = replicate 511 65535"
proof -
  have "alternating_block = 32767 # - 32768 # concat (replicate 255 [32767, - 32768])"
  proof -
    have "replicate 256 [32767, - 32768 :: int16] = replicate (Suc 255) [32767, - 32768]"
      by simp
    then show ?thesis unfolding alternating_block_def by (simp only: replicate_Suc concat.simps) simp
  qed
  then have alt: "alternating_block = 32767 # - 32768 # concat (replicate 255 [32767, - 32768])" .
  have "first_differences alternating_block
             = differences_after 32767 (- 32768 # concat (replicate 255 [32767, - 32768]))"
    by (subst alt) (rule first_differences_Cons)
  also have "\<dots> = 65535 # differences_after (- 32768) (concat (replicate 255 [32767, - 32768]))"
    by simp
  also have "\<dots> = 65535 # replicate (2 * 255) 65535"
    by (simp only: differences_after_alternating)
  also have "\<dots> = replicate (Suc 510) 65535"
    by (simp only: replicate_Suc) simp
  finally show ?thesis by simp
qed

text \<open>
  On the alternating block all 511 differences are 65535. The first 256 sums are exact;
  each later sum is a tie and rounds up, gaining 65536. The result is 255 above the sum
  of the differences, although the division by 512 is exact.
\<close>

lemma alternating_block_energy_rounded:
  "length alternating_block = BUFFER_SIZE
   \<and> calculateFrequencyDistribution alternating_block = (Some 0, Some (130815 / 2))
   \<and> sum_list (first_differences alternating_block) = 33488385
   \<and> (0::real) * 512 + 130815 / 2 * 512 = 33488640"
proof -
  have alt: "alternating_block = 32767 # - 32768 # concat (replicate 255 [32767, - 32768])"
  proof -
    have "replicate 256 [32767, - 32768 :: int16] = replicate (Suc 255) [32767, - 32768]"
      by simp
    then show ?thesis unfolding alternating_block_def by (simp only: replicate_Suc concat.simps) simp
  qed
  have len: "length alternating_block = 512"
  proof -
    have "length (concat (replicate n [a, b])) = 2 * n" for n and a b :: int16
      by (induction n) simp_all
    then show ?thesis by (simp add: alternating_block_def)
  qed
  have ds: "differences_after 32767 (- 32768 # concat (replicate 255 [32767, - 32768 :: int16]))
            = replicate 511 65535"
    using first_differences_alternating unfolding alt first_differences_Cons .
  have d: "f32_of_int 65535 = of_int 65535" by (simp add: f32_of_int_exact)
  have k: "f32_of_int 1000 = 1000" by (simp add: f32_of_int_exact)
  have hi: "\<not> f32_of_int 65535 < f32_of_int 1000" by (simp add: d k)
  have "replicate (256 + 255) (65535 :: int) = replicate 256 65535 @ replicate 255 65535"
    by (simp only: replicate_add)
  then have sp: "replicate 511 (65535 :: int) = replicate 256 65535 @ replicate 255 65535"
    by simp
  have 1: "((\<lambda>h. fadd h (of_int 65535)) ^^ 256) (of_int 0) = of_int (0 + int 256 * 65535)"
    by (rule fadd_exact_run) simp_all
  have 2: "((\<lambda>h. fadd h (of_int (2 * 32767 + 1))) ^^ 255) (of_int (2 * 8388480))
           = of_int (2 * (8388480 + int 255 * (32767 + 1)))"
    by (rule fadd_tie_up_run) simp_all
  from 1 have 1: "((\<lambda>h. fadd h (of_int 65535)) ^^ 256) 0 = 16776960" by simp
  from 2 have 2: "((\<lambda>h. fadd h (of_int 65535)) ^^ 255) 16776960 = 33488640" by simp
  have fr: "freq_loop (0, 0) 32767 (- 32768 # concat (replicate 255 [32767, - 32768 :: int16]))
            = (0, 33488640)"
    unfolding freq_loop_fold ds sp fold_append o_apply fold_high_run [OF hi] d 1 2 ..
  have n: "f32_of_nat 512 = 512" using f32_of_nat_exact [of 512] by simp
  have "fl (of_int 130815 * 2 powi (- 1)) = of_int 130815 * 2 powi (- 1)"
    by (intro fl_exact) simp_all
  then have h: "fdiv 33488640 512 = 130815 / 2" by (simp add: fdiv_def power_int_minus_divide)
  have l: "fdiv 0 512 = 0" by (simp add: fdiv_def fl_0)
  have c: "calculateFrequencyDistribution alternating_block = (Some 0, Some (130815 / 2))"
    unfolding calculateFrequencyDistribution_def
    by (subst (2) alt, simp only: list.case fr len n) (simp add: h l)
  show ?thesis
    by (simp add: c len BUFFER_SIZE_def first_differences_alternating sum_list_replicate)
qed

end
